theory Spec2Isabelle
  imports Main "HOL-Library.Sublist"
begin

section \<open>Selector fragments and paths\<close>

text \<open>
  A JavaScript number as far as the finder uses one: the penalties are small integers,
  and the fallback path carries \<open>NaN\<close>.  Arithmetic with \<open>NaN\<close> gives \<open>NaN\<close>
  and every comparison with \<open>NaN\<close> is false.
\<close>

datatype number = Num int | NaN

fun plus_number :: "number \<Rightarrow> number \<Rightarrow> number" where
  "plus_number (Num a) (Num b) = Num (a + b)"
| "plus_number _ _ = NaN"

fun minus_number :: "number \<Rightarrow> number \<Rightarrow> number" where
  "minus_number (Num a) (Num b) = Num (a - b)"
| "minus_number _ _ = NaN"

fun less_number :: "number \<Rightarrow> number \<Rightarrow> bool" where
  "less_number (Num a) (Num b) = (a < b)"
| "less_number _ _ = False"

text \<open>
  \<open>type Knot = { name: string, penalty: number, level?: number }\<close>.  The optional
  \<open>level\<close> is \<open>None\<close> until the search stamps it.
\<close>

record knot =
  name :: string
  penalty :: number
  level :: "nat option"

type_synonym path = "knot list"

section \<open>The default predicates\<close>

text \<open>
  The character classes of the three regular expressions of \<open>wordLike\<close>:
  \<open>[a-z\-]\<close> under the flag \<open>i\<close>, the separators \<open>-|[A-Z]\<close> of \<open>split\<close>,
  and the vowels of \<open>[^aeiou]\<close> under the flag \<open>i\<close>.
\<close>

definition word_char :: "char \<Rightarrow> bool" where
  "word_char c = (c \<in> set ''abcdefghijklmnopqrstuvwxyzABCDEFGHIJKLMNOPQRSTUVWXYZ-'')"

definition separator :: "char \<Rightarrow> bool" where
  "separator c = (c \<in> set ''-ABCDEFGHIJKLMNOPQRSTUVWXYZ'')"

definition vowel :: "char \<Rightarrow> bool" where
  "vowel c = (c \<in> set ''aeiouAEIOU'')"

text \<open>\<open>name.split(/-|[A-Z]/)\<close>: the pieces between the separators, empty ones included.\<close>

fun split_words :: "string \<Rightarrow> string \<Rightarrow> string list" where
  "split_words acc [] = [acc]"
| "split_words acc (c # cs) =
     (if separator c then acc # split_words [] cs else split_words (acc @ [c]) cs)"

text \<open>\<open>/[^aeiou]{4,}/i.test(word)\<close>: four characters in a row that are no vowels;
  \<open>n\<close> counts the run that ends before the rest of the word.\<close>

fun consonant_run :: "nat \<Rightarrow> string \<Rightarrow> bool" where
  "consonant_run n [] = False"
| "consonant_run n (c # cs) =
     (if vowel c then consonant_run 0 cs
      else if 4 \<le> Suc n then True else consonant_run (Suc n) cs)"

text \<open>The loop of \<open>wordLike\<close> over the words, with its two early returns.\<close>

fun words_ok :: "string list \<Rightarrow> bool" where
  "words_ok [] = True"
| "words_ok (w # ws) =
     (if length w \<le> 2 then False
      else if consonant_run 0 w then False
      else words_ok ws)"

definition wordLike :: "string \<Rightarrow> bool" where
  "wordLike nm =
     (if 3 \<le> length nm \<and> list_all word_char nm then words_ok (split_words [] nm)
      else False)"

definition acceptedAttrNames :: "string list" where
  "acceptedAttrNames = [''role'', ''name'', ''aria-label'', ''rel'', ''href'']"

definition startsWith :: "string \<Rightarrow> string \<Rightarrow> bool" where
  "startsWith s p = (take (length p) s = p)"

text \<open>\<open>attr(name, value)\<close>; \<open>x ||= y\<close> keeps a true \<open>x\<close> and takes \<open>y\<close> otherwise.\<close>

definition attr :: "string \<Rightarrow> string \<Rightarrow> bool" where
  "attr nm val =
     (let nameIsOk = nm \<in> set acceptedAttrNames;
          nameIsOk = (if nameIsOk then nameIsOk else startsWith nm ''data-'' \<and> wordLike nm);
          valueIsOk = (wordLike val \<and> length val < 100);
          valueIsOk = (if valueIsOk then valueIsOk
                       else startsWith val ''#'' \<and> wordLike (drop 1 val))
      in nameIsOk \<and> valueIsOk)"

definition idName :: "string \<Rightarrow> bool" where
  "idName nm = wordLike nm"

definition className :: "string \<Rightarrow> bool" where
  "className nm = wordLike nm"

definition tagName :: "string \<Rightarrow> bool" where
  "tagName nm = True"

section \<open>Rendering and scoring a path\<close>

datatype error =
    InvalidInput    \<comment> \<open>Can't generate CSS selector for non-element node type.\<close>
  | Timeout         \<comment> \<open>Timeout: Can't find a unique selector after ...ms\<close>
  | NotFound        \<comment> \<open>Selector was not found.\<close>
  | NoMatch string  \<comment> \<open>Can't select any node with this selector: ...\<close>
  | TypeError       \<comment> \<open>a property read of \<open>undefined\<close> or \<open>null\<close>\<close>

text \<open>
  The loop of \<open>selector\<close>: \<open>node\<close> is the fragment before, \<open>query\<close> the text so
  far.  \<open>path[i].level || 0\<close> reads a missing level as 0, and
  \<open>node.level === level - 1\<close> is false for a missing \<open>node.level\<close>.
\<close>

fun selector_loop :: "knot \<Rightarrow> string \<Rightarrow> path \<Rightarrow> string" where
  "selector_loop node query [] = query"
| "selector_loop node query (k # rest) =
     (let lvl = (case level k of None \<Rightarrow> 0 | Some l \<Rightarrow> l);
          query' = (if (case level node of None \<Rightarrow> False | Some m \<Rightarrow> int m = int lvl - 1)
                    then name k @ '' > '' @ query
                    else name k @ '' '' @ query)
      in selector_loop k query' rest)"

text \<open>\<open>selector(path)\<close>; reading \<open>path[0].name\<close> of an empty path is a TypeError.\<close>

definition selector :: "path \<Rightarrow> error + string" where
  "selector p = (case p of [] \<Rightarrow> Inl TypeError | node # rest \<Rightarrow> Inr (selector_loop node (name node) rest))"

text \<open>\<open>penalty(path)\<close>: the \<open>reduce\<close> from 0 over the fragments' penalties.\<close>

definition penalty_path :: "path \<Rightarrow> number" where
  "penalty_path p = foldl plus_number (Num 0) (map penalty p)"

definition byPenalty :: "path \<Rightarrow> path \<Rightarrow> number" where
  "byPenalty a b = minus_number (penalty_path a) (penalty_path b)"

text \<open>
  \<open>Array.prototype.sort(comparefn)\<close> is stable: \<open>x\<close> moves behind \<open>y\<close> only when
  \<open>comparefn(x, y) > 0\<close> (a \<open>NaN\<close> result counts as 0).  Insertion from the right
  gives that order.
\<close>

fun positive :: "number \<Rightarrow> bool" where
  "positive (Num n) = (0 < n)"
| "positive NaN = False"

fun insert_sorted :: "('a \<Rightarrow> 'a \<Rightarrow> number) \<Rightarrow> 'a \<Rightarrow> 'a list \<Rightarrow> 'a list" where
  "insert_sorted cmp x [] = [x]"
| "insert_sorted cmp x (y # ys) =
     (if positive (cmp x y) then y # insert_sorted cmp x ys else x # y # ys)"

definition array_sort :: "('a \<Rightarrow> 'a \<Rightarrow> number) \<Rightarrow> 'a list \<Rightarrow> 'a list" where
  "array_sort cmp xs = foldr (insert_sorted cmp) xs []"

text \<open>The generator \<open>combinations(stack, path = [])\<close>, as the list of what it yields.\<close>

fun combinations :: "knot list list \<Rightarrow> path \<Rightarrow> path list" where
  "combinations [] p = [p]"
| "combinations (lv # stack) p = concat (map (\<lambda>node. combinations stack (p @ [node])) lv)"

section \<open>The document\<close>

text \<open>
  The document is a tree of nodes.  A node is named by its position: the list of child
  indices from the node up to the root of the tree, so \<open>[]\<close> is the root (the
  document itself) and the tail of a reference is the parent's reference.
\<close>

datatype dnode = DNode (nodeType: nat) (node_tagName: string)
  (attributes: "(string \<times> string) list") (classList: "string list") (childNodes: "dnode list")

type_synonym ref = "nat list"

definition ELEMENT_NODE :: nat where
  "ELEMENT_NODE = 1"

definition DOCUMENT_NODE :: nat where
  "DOCUMENT_NODE = 9"

fun node_at :: "dnode \<Rightarrow> ref \<Rightarrow> dnode option" where
  "node_at d [] = Some d"
| "node_at d (i # p) =
     (case node_at d p of
        None \<Rightarrow> None
      | Some n \<Rightarrow> (if i < length (childNodes n) then Some (childNodes n ! i) else None))"

text \<open>
  What the host gives the finder: the tree, \<open>document.body\<close>, the query engine
  \<open>scope.querySelectorAll(css)\<close>, \<open>CSS.escape\<close>, and the wall clock (the \<open>k\<close>-th
  reading of \<open>new Date().getTime()\<close>).  The query engine and the escaping are the
  host's; the finder only calls them.
\<close>

record env =
  tree :: dnode
  body :: "ref option"
  querySelectorAll :: "ref \<Rightarrow> string \<Rightarrow> ref list"
  escape :: "string \<Rightarrow> string"
  clock :: "nat \<Rightarrow> int"

text \<open>A reference that names no node reads as a node of no kind (type 0), which the
  finder refuses like any other non-element.\<close>

definition the_node :: "env \<Rightarrow> ref \<Rightarrow> dnode" where
  "the_node E r = (case node_at (tree E) r of Some n \<Rightarrow> n | None \<Rightarrow> DNode 0 [] [] [] [])"

definition parentNode :: "env \<Rightarrow> ref \<Rightarrow> ref option" where
  "parentNode E r = (case r of [] \<Rightarrow> None | i # p \<Rightarrow> Some p)"

definition parentElement :: "env \<Rightarrow> ref \<Rightarrow> ref option" where
  "parentElement E r =
     (case parentNode E r of
        None \<Rightarrow> None
      | Some p \<Rightarrow> (if nodeType (the_node E p) = ELEMENT_NODE then Some p else None))"

definition child_refs :: "env \<Rightarrow> ref \<Rightarrow> ref list" where
  "child_refs E p = map (\<lambda>i. i # p) [0..<length (childNodes (the_node E p))]"

text \<open>\<open>node.ownerDocument\<close>: the document is the root of the tree.\<close>

definition ownerDocument :: "env \<Rightarrow> ref \<Rightarrow> ref" where
  "ownerDocument E r = []"

definition getAttribute :: "env \<Rightarrow> ref \<Rightarrow> string \<Rightarrow> string option" where
  "getAttribute E r nm = map_of (attributes (the_node E r)) nm"

definition lower_char :: "char \<Rightarrow> char" where
  "lower_char c =
     (case map_of (zip ''ABCDEFGHIJKLMNOPQRSTUVWXYZ'' ''abcdefghijklmnopqrstuvwxyz'') c of
        None \<Rightarrow> c
      | Some l \<Rightarrow> l)"

definition toLowerCase :: "string \<Rightarrow> string" where
  "toLowerCase s = map lower_char s"

text \<open>\<open>element.tagName.toLowerCase()\<close>\<close>

definition lower_tag :: "env \<Rightarrow> ref \<Rightarrow> string" where
  "lower_tag E r = toLowerCase (node_tagName (the_node E r))"

text \<open>The decimal text of an index, as a template literal prints it.\<close>

fun show_nat :: "nat \<Rightarrow> string" where
  "show_nat n =
     (if n < 10 then [''0123456789'' ! n]
      else show_nat (n div 10) @ [''0123456789'' ! (n mod 10)])"

declare show_nat.simps [simp del]

section \<open>Fragments of one element\<close>

text \<open>The loop of \<open>indexOf(input, tagName?)\<close> over the parent's children, from the
  first child to \<open>input\<close>.\<close>

fun indexOf_loop :: "env \<Rightarrow> ref \<Rightarrow> string option \<Rightarrow> ref list \<Rightarrow> nat \<Rightarrow> nat" where
  "indexOf_loop E input tg [] i = i"
| "indexOf_loop E input tg (child # rest) i =
     (let i = (if nodeType (the_node E child) = ELEMENT_NODE \<and>
                  (case tg of None \<Rightarrow> True | Some t \<Rightarrow> lower_tag E child = t)
               then i + 1 else i)
      in if child = input then i else indexOf_loop E input tg rest i)"

definition indexOf :: "env \<Rightarrow> ref \<Rightarrow> string option \<Rightarrow> nat option" where
  "indexOf E input tg =
     (case parentNode E input of
        None \<Rightarrow> None
      | Some parent \<Rightarrow>
          (case child_refs E parent of
             [] \<Rightarrow> None
           | child # rest \<Rightarrow> Some (indexOf_loop E input tg (child # rest) 0)))"

definition nthChild :: "string \<Rightarrow> nat \<Rightarrow> string" where
  "nthChild tg index =
     (if tg = ''html'' then ''html'' else tg @ '':nth-child('' @ show_nat index @ '')'')"

definition nthOfType :: "string \<Rightarrow> nat \<Rightarrow> string" where
  "nthOfType tg index =
     (if tg = ''html'' then ''html'' else tg @ '':nth-of-type('' @ show_nat index @ '')'')"

section \<open>Configuration\<close>

text \<open>A numeric option that may be \<open>Infinity\<close> (\<open>timeoutMs\<close>,
  \<open>maxNumberOfPathChecks\<close>), with the two comparisons the finder makes.\<close>

datatype limit = Finite int | Infinity

fun exceeds :: "int \<Rightarrow> limit \<Rightarrow> bool" where
  "exceeds elapsed (Finite t) = (t < elapsed)"
| "exceeds elapsed Infinity = False"

fun reached :: "nat \<Rightarrow> limit \<Rightarrow> bool" where
  "reached n (Finite m) = (m \<le> int n)"
| "reached n Infinity = False"

text \<open>\<open>Required<Options>\<close>; the four predicate fields carry the prefix \<open>cfg\<close>, their
  names being those of the default predicates.\<close>

record config =
  root :: "ref option"
  cfg_idName :: "string \<Rightarrow> bool"
  cfg_className :: "string \<Rightarrow> bool"
  cfg_tagName :: "string \<Rightarrow> bool"
  cfg_attr :: "string \<Rightarrow> string \<Rightarrow> bool"
  timeoutMs :: limit
  seedMinLength :: int
  optimizedMinLength :: int
  maxNumberOfPathChecks :: limit

text \<open>\<open>Partial<Options>\<close>: a field that is not given is \<open>None\<close>.\<close>

record options =
  opt_root :: "ref option"
  opt_idName :: "(string \<Rightarrow> bool) option"
  opt_className :: "(string \<Rightarrow> bool) option"
  opt_tagName :: "(string \<Rightarrow> bool) option"
  opt_attr :: "(string \<Rightarrow> string \<Rightarrow> bool) option"
  opt_timeoutMs :: "limit option"
  opt_seedMinLength :: "int option"
  opt_optimizedMinLength :: "int option"
  opt_maxNumberOfPathChecks :: "limit option"

definition defaults :: "env \<Rightarrow> config" where
  "defaults E =
     \<lparr> root = body E, cfg_idName = idName, cfg_className = className, cfg_tagName = tagName,
       cfg_attr = attr, timeoutMs = Finite 1000, seedMinLength = 3, optimizedMinLength = 2,
       maxNumberOfPathChecks = Infinity \<rparr>"

text \<open>\<open>{ ...defaults, ...options }\<close>\<close>

definition merge :: "config \<Rightarrow> options \<Rightarrow> config" where
  "merge d opts =
     \<lparr> root = (case opt_root opts of None \<Rightarrow> root d | Some r \<Rightarrow> Some r),
       cfg_idName = (case opt_idName opts of None \<Rightarrow> cfg_idName d | Some f \<Rightarrow> f),
       cfg_className = (case opt_className opts of None \<Rightarrow> cfg_className d | Some f \<Rightarrow> f),
       cfg_tagName = (case opt_tagName opts of None \<Rightarrow> cfg_tagName d | Some f \<Rightarrow> f),
       cfg_attr = (case opt_attr opts of None \<Rightarrow> cfg_attr d | Some f \<Rightarrow> f),
       timeoutMs = (case opt_timeoutMs opts of None \<Rightarrow> timeoutMs d | Some t \<Rightarrow> t),
       seedMinLength = (case opt_seedMinLength opts of None \<Rightarrow> seedMinLength d | Some n \<Rightarrow> n),
       optimizedMinLength =
         (case opt_optimizedMinLength opts of None \<Rightarrow> optimizedMinLength d | Some n \<Rightarrow> n),
       maxNumberOfPathChecks =
         (case opt_maxNumberOfPathChecks opts of None \<Rightarrow> maxNumberOfPathChecks d | Some n \<Rightarrow> n) \<rparr>"

definition findRootDocument :: "env \<Rightarrow> ref option \<Rightarrow> config \<Rightarrow> error + ref" where
  "findRootDocument E rootNode dflt =
     (case rootNode of
        None \<Rightarrow> Inl TypeError
      | Some r \<Rightarrow>
          (if nodeType (the_node E r) = DOCUMENT_NODE then Inr r
           else if rootNode = root dflt then Inr (ownerDocument E r)
           else Inr r))"

section \<open>The fragment generator\<close>

text \<open>The pushes of \<open>tie\<close>, one definition for each kind of fragment (id, classes,
  attributes, tag with its \<open>nth-of-type\<close>, \<open>nth-child\<close>), then \<open>tie\<close> itself in the
  order of its pushes.\<close>

definition tie_id :: "env \<Rightarrow> config \<Rightarrow> ref \<Rightarrow> knot list" where
  "tie_id E cfg element =
     (case getAttribute E element ''id'' of
        None \<Rightarrow> []
      | Some elementId \<Rightarrow>
          (if elementId \<noteq> [] \<and> cfg_idName cfg elementId
           then [\<lparr> name = ''#'' @ escape E elementId, penalty = Num 0, level = None \<rparr>]
           else []))"

definition tie_classes :: "env \<Rightarrow> config \<Rightarrow> ref \<Rightarrow> knot list" where
  "tie_classes E cfg element =
     map (\<lambda>nm. \<lparr> name = ''.'' @ escape E nm, penalty = Num 1, level = None \<rparr>)
       (filter (cfg_className cfg) (classList (the_node E element)))"

definition tie_attributes :: "env \<Rightarrow> config \<Rightarrow> ref \<Rightarrow> knot list" where
  "tie_attributes E cfg element =
     map (\<lambda>(nm, val). \<lparr> name = ''['' @ escape E nm @ [CHR ''='', CHR 0x22] @ escape E val
                                  @ [CHR 0x22, CHR '']''],
                         penalty = Num 2, level = None \<rparr>)
       (filter (\<lambda>(nm, val). nm \<noteq> ''class'' \<and> cfg_attr cfg nm val) (attributes (the_node E element)))"

definition tie_tag :: "env \<Rightarrow> config \<Rightarrow> ref \<Rightarrow> knot list" where
  "tie_tag E cfg element =
     (let tg = lower_tag E element in
      if cfg_tagName cfg tg
      then \<lparr> name = tg, penalty = Num 5, level = None \<rparr> #
           (case indexOf E element (Some tg) of
              None \<Rightarrow> []
            | Some index \<Rightarrow> [\<lparr> name = nthOfType tg index, penalty = Num 10, level = None \<rparr>])
      else [])"

definition tie_nth :: "env \<Rightarrow> ref \<Rightarrow> knot list" where
  "tie_nth E element =
     (case indexOf E element None of
        None \<Rightarrow> []
      | Some nth' \<Rightarrow> [\<lparr> name = nthChild (lower_tag E element) nth', penalty = Num 50, level = None \<rparr>])"

definition tie :: "env \<Rightarrow> config \<Rightarrow> ref \<Rightarrow> knot list" where
  "tie E cfg element =
     tie_id E cfg element @ tie_classes E cfg element @ tie_attributes E cfg element @
     tie_tag E cfg element @ tie_nth E element"

section \<open>Path search\<close>

text \<open>
  The loop of the generator \<open>search\<close>, as the list of the candidates it yields in order:
  \<open>current\<close> walks the \<open>parentElement\<close> links, \<open>i\<close> counts the levels, \<open>stack\<close>
  holds the levels pushed and \<open>paths\<close> the pending candidates.
\<close>

function search_loop ::
  "env \<Rightarrow> config \<Rightarrow> ref \<Rightarrow> ref option \<Rightarrow> nat \<Rightarrow> knot list list \<Rightarrow> path list \<Rightarrow> path list" where
  "search_loop E cfg rootDocument current i stack paths =
     (case current of
        None \<Rightarrow> array_sort byPenalty paths
      | Some c \<Rightarrow>
          (if c = rootDocument then array_sort byPenalty paths
           else
             (let lv = map (\<lambda>node. node\<lparr> level := Some i \<rparr>) (tie E cfg c);
                  stack' = stack @ [lv];
                  paths' = paths @ combinations stack' []
              in if seedMinLength cfg \<le> int (i + 1)
                 then array_sort byPenalty paths' @
                      search_loop E cfg rootDocument (parentElement E c) (i + 1) stack' []
                 else search_loop E cfg rootDocument (parentElement E c) (i + 1) stack' paths')))"
  by pat_completeness auto
termination
  by (relation "measure (\<lambda>(E, cfg, rootDocument, current, i, stack, paths).
        (case current of None \<Rightarrow> 0 | Some r \<Rightarrow> Suc (length r)))")
     (auto simp: parentElement_def parentNode_def split: list.splits option.splits)

declare search_loop.simps [simp del]

text \<open>\<open>input[0]\<close>, \<open>undefined\<close> for an empty array.\<close>

definition first_target :: "ref list \<Rightarrow> ref option" where
  "first_target input = (case input of [] \<Rightarrow> None | x # xs \<Rightarrow> Some x)"

definition search :: "env \<Rightarrow> ref list \<Rightarrow> config \<Rightarrow> ref \<Rightarrow> path list" where
  "search E input cfg rootDocument = search_loop E cfg rootDocument (first_target input) 0 [] []"

section \<open>The clock, the queries, and the uniqueness oracle\<close>

text \<open>
  The finder acts on its host in two ways: it reads the clock and it queries the
  document.  A state counts the clock readings made and keeps the trace of both kinds
  of event, the most recent first.  A query is marked with the part of the finder that
  issued it.
\<close>

datatype caller = BySearch | ByOptimize | ByPermutations | ByFallback

datatype event = Now int | Query caller string

record state =
  reads :: nat
  trace :: "event list"

text \<open>\<open>new Date().getTime()\<close>\<close>

definition now :: "env \<Rightarrow> state \<Rightarrow> int \<times> state" where
  "now E s = (clock E (reads s), \<lparr> reads = reads s + 1, trace = Now (clock E (reads s)) # trace s \<rparr>)"

text \<open>\<open>unique(path, elementsToMatch, rootDocument)\<close>; \<open>who\<close> only marks the event.\<close>

definition unique :: "env \<Rightarrow> caller \<Rightarrow> path \<Rightarrow> ref list \<Rightarrow> ref \<Rightarrow> state \<Rightarrow> (error + bool) \<times> state" where
  "unique E who p elementsToMatch rootDocument s =
     (case selector p of
        Inl e \<Rightarrow> (Inl e, s)
      | Inr css \<Rightarrow>
          (let foundElements = querySelectorAll E rootDocument css;
               s' = s\<lparr> trace := Query who css # trace s \<rparr>
           in if length foundElements = 0 then (Inl (NoMatch css), s')
              else (Inr (length foundElements = length elementsToMatch \<and>
                         list_all (\<lambda>element. element \<in> set foundElements) elementsToMatch), s')))"

text \<open>\<open>newPath = [...path]; newPath.splice(i, 1)\<close>\<close>

definition splice1 :: "nat \<Rightarrow> 'a list \<Rightarrow> 'a list" where
  "splice1 i p = take i p @ drop (Suc i) p"

section \<open>The optimizer\<close>

text \<open>
  The generator \<open>optimize\<close>, as the list of what it yields: \<open>optimize_from\<close> is the
  \<open>for\<close> loop from index \<open>i\<close> on, under the test of the \<open>if\<close> around it (the path
  does not change during the loop).  A \<open>unique\<close> that throws ends everything.
\<close>

function optimize_from ::
  "env \<Rightarrow> ref list \<Rightarrow> config \<Rightarrow> ref \<Rightarrow> int \<Rightarrow> path \<Rightarrow> nat \<Rightarrow> state \<Rightarrow> (error + path list) \<times> state" where
  "optimize_from E input cfg rootDocument startTime p i s =
     (if (2 < length p \<and> optimizedMinLength cfg < int (length p)) \<and> i < length p - 1
      then
        (case now E s of (t, s1) \<Rightarrow>
           (if exceeds (t - startTime) (timeoutMs cfg) then (Inr [], s1)
            else
              (case unique E ByOptimize (splice1 i p) input rootDocument s1 of
                 (Inl e, s2) \<Rightarrow> (Inl e, s2)
               | (Inr True, s2) \<Rightarrow>
                   (case optimize_from E input cfg rootDocument startTime (splice1 i p) 1 s2 of
                      (Inl e, s3) \<Rightarrow> (Inl e, s3)
                    | (Inr ys, s3) \<Rightarrow>
                        (case optimize_from E input cfg rootDocument startTime p (i + 1) s3 of
                           (Inl e, s4) \<Rightarrow> (Inl e, s4)
                         | (Inr zs, s4) \<Rightarrow> (Inr (splice1 i p # ys @ zs), s4)))
               | (Inr False, s2) \<Rightarrow>
                   optimize_from E input cfg rootDocument startTime p (i + 1) s2)))
      else (Inr [], s))"
  by pat_completeness auto
termination
  by (relation "measures [\<lambda>(E, input, cfg, rootDocument, startTime, p, i, s). length p,
                          \<lambda>(E, input, cfg, rootDocument, startTime, p, i, s). length p - i]")
     (auto simp: splice1_def)

declare optimize_from.simps [simp del]

definition optimize ::
  "env \<Rightarrow> path \<Rightarrow> ref list \<Rightarrow> config \<Rightarrow> ref \<Rightarrow> int \<Rightarrow> state \<Rightarrow> (error + path list) \<times> state" where
  "optimize E p input cfg rootDocument startTime s =
     optimize_from E input cfg rootDocument startTime p 1 s"

section \<open>The permutation explorer\<close>

text \<open>
  The generator \<open>permuations\<close>: \<open>permuations_from\<close> is the \<open>for\<close> loop from index
  \<open>i\<close> on, under its \<open>if\<close>, followed by the test that ends the function.
\<close>

function permuations_from ::
  "env \<Rightarrow> ref list \<Rightarrow> nat \<Rightarrow> number \<Rightarrow> ref \<Rightarrow> path \<Rightarrow> nat \<Rightarrow> state \<Rightarrow> (error + path list) \<times> state" where
  "permuations_from E input maximumLength maximumScore rootDocument p i s =
     (if maximumLength < length p \<and> i < length p - 1
      then
        (case permuations_from E input maximumLength maximumScore rootDocument (splice1 i p) 1 s of
           (Inl e, s1) \<Rightarrow> (Inl e, s1)
         | (Inr ys, s1) \<Rightarrow>
             (case permuations_from E input maximumLength maximumScore rootDocument p (i + 1) s1 of
                (Inl e, s2) \<Rightarrow> (Inl e, s2)
              | (Inr zs, s2) \<Rightarrow> (Inr (ys @ zs), s2)))
      else
        (if less_number (penalty_path p) maximumScore
         then
           (case unique E ByPermutations p input rootDocument s of
              (Inl e, s1) \<Rightarrow> (Inl e, s1)
            | (Inr True, s1) \<Rightarrow> (Inr [p], s1)
            | (Inr False, s1) \<Rightarrow> (Inr [], s1))
         else (Inr [], s)))"
  by pat_completeness auto
termination
  by (relation "measures [\<lambda>(E, input, maximumLength, maximumScore, rootDocument, p, i, s). length p,
                          \<lambda>(E, input, maximumLength, maximumScore, rootDocument, p, i, s). length p - i]")
     (auto simp: splice1_def)

declare permuations_from.simps [simp del]

definition permuations ::
  "env \<Rightarrow> path \<Rightarrow> ref list \<Rightarrow> nat \<Rightarrow> number \<Rightarrow> ref \<Rightarrow> state \<Rightarrow> (error + path list) \<times> state" where
  "permuations E p input maximumLength maximumScore rootDocument s =
     permuations_from E input maximumLength maximumScore rootDocument p 1 s"

section \<open>The fallback\<close>

function fallback_loop :: "env \<Rightarrow> ref \<Rightarrow> ref option \<Rightarrow> nat \<Rightarrow> path \<Rightarrow> path option" where
  "fallback_loop E rootDocument current i p =
     (case current of
        None \<Rightarrow> Some p
      | Some c \<Rightarrow>
          (if c = rootDocument then Some p
           else
             (case indexOf E c (Some (lower_tag E c)) of
                None \<Rightarrow> None
              | Some index \<Rightarrow>
                  fallback_loop E rootDocument (parentElement E c) (i + 1)
                    (p @ [\<lparr> name = nthOfType (lower_tag E c) index, penalty = NaN, level = Some i \<rparr>]))))"
  by pat_completeness auto
termination
  by (relation "measure (\<lambda>(E, rootDocument, current, i, p).
        (case current of None \<Rightarrow> 0 | Some r \<Rightarrow> Suc (length r)))")
     (auto simp: parentElement_def parentNode_def split: list.splits option.splits)

declare fallback_loop.simps [simp del]

text \<open>\<open>fallback(input, rootDocument)\<close>: \<open>None\<close> is its \<open>undefined\<close>.\<close>

definition fallback :: "env \<Rightarrow> ref list \<Rightarrow> ref \<Rightarrow> state \<Rightarrow> (error + path option) \<times> state" where
  "fallback E input rootDocument s =
     (case fallback_loop E rootDocument (first_target input) 0 [] of
        None \<Rightarrow> (Inr None, s)
      | Some p \<Rightarrow>
          (case unique E ByFallback p input rootDocument s of
             (Inl e, s1) \<Rightarrow> (Inl e, s1)
           | (Inr True, s1) \<Rightarrow> (Inr (Some p), s1)
           | (Inr False, s1) \<Rightarrow> (Inr None, s1)))"

section \<open>The finder\<close>

text \<open>How the \<open>for\<close> loop of \<open>finder\<close> over the candidates ends: with the \<open>return\<close>
  of the fallback's selector, or (by a \<open>break\<close> or at the end of the candidates) with
  the paths found.\<close>

datatype loop_result = Return string | Paths "path list"

fun finder_loop ::
  "env \<Rightarrow> config \<Rightarrow> ref list \<Rightarrow> ref \<Rightarrow> int \<Rightarrow> path list \<Rightarrow> path list \<Rightarrow> nat \<Rightarrow> state
     \<Rightarrow> (error + loop_result) \<times> state" where
  "finder_loop E cfg input rootDocument startTime [] foundPaths count s = (Inr (Paths foundPaths), s)"
| "finder_loop E cfg input rootDocument startTime (candidate # rest) foundPaths count s =
     (case now E s of (t, s1) \<Rightarrow>
        (if exceeds (t - startTime) (timeoutMs cfg) \<or> reached count (maxNumberOfPathChecks cfg)
         then
           (if length foundPaths \<noteq> 0 then (Inr (Paths foundPaths), s1)
            else
              (case fallback E input rootDocument s1 of
                 (Inl e, s2) \<Rightarrow> (Inl e, s2)
               | (Inr None, s2) \<Rightarrow> (Inl Timeout, s2)
               | (Inr (Some fPath), s2) \<Rightarrow>
                   (case selector fPath of
                      Inl e \<Rightarrow> (Inl e, s2)
                    | Inr css \<Rightarrow> (Inr (Return css), s2))))
         else
           (case unique E BySearch candidate input rootDocument s1 of
              (Inl e, s2) \<Rightarrow> (Inl e, s2)
            | (Inr True, s2) \<Rightarrow>
                (if length input = 1 then (Inr (Paths (foundPaths @ [candidate])), s2)
                 else finder_loop E cfg input rootDocument startTime rest
                        (foundPaths @ [candidate]) (count + 1) s2)
            | (Inr False, s2) \<Rightarrow>
                finder_loop E cfg input rootDocument startTime rest foundPaths (count + 1) s2)))"

text \<open>\<open>otherPaths.map((foundPath) => [...permuations({...})]).flat()\<close>\<close>

fun map_permuations ::
  "env \<Rightarrow> ref list \<Rightarrow> nat \<Rightarrow> number \<Rightarrow> ref \<Rightarrow> path list \<Rightarrow> state \<Rightarrow> (error + path list) \<times> state" where
  "map_permuations E input maximumLength maximumScore rootDocument [] s = (Inr [], s)"
| "map_permuations E input maximumLength maximumScore rootDocument (foundPath # rest) s =
     (case permuations E foundPath input maximumLength maximumScore rootDocument s of
        (Inl e, s1) \<Rightarrow> (Inl e, s1)
      | (Inr ys, s1) \<Rightarrow>
          (case map_permuations E input maximumLength maximumScore rootDocument rest s1 of
             (Inl e, s2) \<Rightarrow> (Inl e, s2)
           | (Inr zs, s2) \<Rightarrow> (Inr (ys @ zs), s2)))"

text \<open>\<open>otherPermutations.map((foundPath) => [foundPath, ...optimize(...)]).flat()\<close>\<close>

fun map_optimize ::
  "env \<Rightarrow> ref list \<Rightarrow> config \<Rightarrow> ref \<Rightarrow> int \<Rightarrow> path list \<Rightarrow> state \<Rightarrow> (error + path list) \<times> state" where
  "map_optimize E input cfg rootDocument startTime [] s = (Inr [], s)"
| "map_optimize E input cfg rootDocument startTime (foundPath # rest) s =
     (case optimize E foundPath input cfg rootDocument startTime s of
        (Inl e, s1) \<Rightarrow> (Inl e, s1)
      | (Inr ys, s1) \<Rightarrow>
          (case map_optimize E input cfg rootDocument startTime rest s1 of
             (Inl e, s2) \<Rightarrow> (Inl e, s2)
           | (Inr zs, s2) \<Rightarrow> (Inr ((foundPath # ys) @ zs), s2)))"

text \<open>The last four lines of \<open>finder\<close>.\<close>

definition finder_result :: "path list \<Rightarrow> path list \<Rightarrow> error + string" where
  "finder_result optimized foundPaths =
     (if 0 < length optimized
      then (case optimized of [] \<Rightarrow> Inl TypeError | x # xs \<Rightarrow> selector x)
      else (case foundPaths of [] \<Rightarrow> Inl TypeError | x # xs \<Rightarrow> selector x))"

text \<open>\<open>finder\<close> from the sort of the paths found to its end.\<close>

definition finder_select ::
  "env \<Rightarrow> config \<Rightarrow> ref list \<Rightarrow> ref \<Rightarrow> int \<Rightarrow> path list \<Rightarrow> state \<Rightarrow> (error + string) \<times> state" where
  "finder_select E cfg input rootDocument startTime found s =
     (if length found = 0 then (Inl NotFound, s)
      else
        (let foundPaths = array_sort byPenalty found in
         case foundPaths of
           [] \<Rightarrow> (Inl TypeError, s)
         | firstPath # otherPaths \<Rightarrow>
             (case optimize E firstPath input cfg rootDocument startTime s of
                (Inl e, s1) \<Rightarrow> (Inl e, s1)
              | (Inr ys, s1) \<Rightarrow>
                  (let initialOptimized = array_sort byPenalty (firstPath # ys) in
                   if 1 < length input
                   then
                     (case initialOptimized of
                        [] \<Rightarrow> (Inl TypeError, s1)
                      | firstOptimizedPath # others \<Rightarrow>
                          (let maxPenaltyLength = penalty_path firstOptimizedPath;
                               maxLength = length firstOptimizedPath
                           in case map_permuations E input maxLength maxPenaltyLength rootDocument
                                     otherPaths s1 of
                                (Inl e, s2) \<Rightarrow> (Inl e, s2)
                              | (Inr otherPermutations, s2) \<Rightarrow>
                                  (case map_optimize E input cfg rootDocument startTime
                                          otherPermutations s2 of
                                     (Inl e, s3) \<Rightarrow> (Inl e, s3)
                                   | (Inr optimized, s3) \<Rightarrow>
                                       (finder_result
                                          (array_sort byPenalty (optimized @ [firstOptimizedPath]))
                                          foundPaths, s3))))
                   else (finder_result initialOptimized foundPaths, s1)))))"

text \<open>\<open>initialInput: Element | Element[]\<close>\<close>

datatype target = Single ref | Multiple "ref list"

text \<open>\<open>Array.isArray(initialInput) ? initialInput : [initialInput]\<close>\<close>

definition as_array :: "target \<Rightarrow> ref list" where
  "as_array initialInput = (case initialInput of Multiple xs \<Rightarrow> xs | Single x \<Rightarrow> [x])"

definition finder :: "env \<Rightarrow> target \<Rightarrow> options \<Rightarrow> state \<Rightarrow> (error + string) \<times> state" where
  "finder E initialInput opts s =
     (let input = as_array initialInput in
      if list_ex (\<lambda>element. nodeType (the_node E element) \<noteq> ELEMENT_NODE) input
      then (Inl InvalidInput, s)
      else if list_all (\<lambda>element. lower_tag E element = ''html'') input
      then (Inr ''html'', s)
      else
        (case now E s of (startTime, s0) \<Rightarrow>
           (let cfg = merge (defaults E) opts in
            case findRootDocument E (root cfg) (defaults E) of
              Inl e \<Rightarrow> (Inl e, s0)
            | Inr rootDocument \<Rightarrow>
                (case finder_loop E cfg input rootDocument startTime
                        (search E input cfg rootDocument) [] 0 s0 of
                   (Inl e, s1) \<Rightarrow> (Inl e, s1)
                 | (Inr (Return css), s1) \<Rightarrow> (Inr css, s1)
                 | (Inr (Paths foundPaths), s1) \<Rightarrow>
                     finder_select E cfg input rootDocument startTime foundPaths s1))))"

section \<open>Vocabulary of the properties\<close>

text \<open>The score of a path as an integer, for paths whose penalties are all numbers (every
  fragment that \<open>tie\<close> makes is such).\<close>

definition score :: "path \<Rightarrow> int" where
  "score p = sum_list (map (\<lambda>k. case penalty k of Num n \<Rightarrow> n | NaN \<Rightarrow> 0) p)"

definition numeric :: "path \<Rightarrow> bool" where
  "numeric p = list_all (\<lambda>k. penalty k \<noteq> NaN) p"

text \<open>The elements the search walks through: from \<open>current\<close> along the
  \<open>parentElement\<close> links, up to the root document or the end of the links.\<close>

function ancestors :: "env \<Rightarrow> ref \<Rightarrow> ref option \<Rightarrow> ref list" where
  "ancestors E rootDocument current =
     (case current of
        None \<Rightarrow> []
      | Some c \<Rightarrow> (if c = rootDocument then [] else c # ancestors E rootDocument (parentElement E c)))"
  by pat_completeness auto
termination
  by (relation "measure (\<lambda>(E, rootDocument, current).
        (case current of None \<Rightarrow> 0 | Some r \<Rightarrow> Suc (length r)))")
     (auto simp: parentElement_def parentNode_def split: list.splits option.splits)

declare ancestors.simps [simp del]

text \<open>The fragments of the \<open>j\<close>-th ancestor, with the level \<open>j\<close> stamped on them.\<close>

definition stamp :: "nat \<Rightarrow> knot list \<Rightarrow> knot list" where
  "stamp i lv = map (\<lambda>node. node\<lparr> level := Some i \<rparr>) lv"

definition levels_from :: "env \<Rightarrow> config \<Rightarrow> nat \<Rightarrow> ref list \<Rightarrow> knot list list" where
  "levels_from E cfg i cs = map (\<lambda>(j, c). stamp j (tie E cfg c)) (enumerate i cs)"

definition levels :: "env \<Rightarrow> config \<Rightarrow> ref \<Rightarrow> ref list \<Rightarrow> knot list list" where
  "levels E cfg rootDocument input =
     levels_from E cfg 0 (ancestors E rootDocument (first_target input))"

text \<open>
  The search as the specification tells it, over the list of the levels still to come:
  each level is added to the levels seen; the Cartesian product of the levels seen
  (\<open>product_lists\<close>: the first level varies slowest, the last fastest) is appended to the
  pending list; once the number of levels seen has reached the seed length, the pending
  list is sorted by ascending score (\<open>sort_key\<close>, a stable sort), yielded, and cleared.
  What is pending when the levels end is sorted and yielded too.
\<close>

fun search_spec :: "int \<Rightarrow> knot list list \<Rightarrow> path list \<Rightarrow> knot list list \<Rightarrow> path list" where
  "search_spec seed seen pending [] = sort_key score pending"
| "search_spec seed seen pending (lv # rest) =
     (let seen' = seen @ [lv];
          pending' = pending @ product_lists seen'
      in if seed \<le> int (length seen')
         then sort_key score pending' @ search_spec seed seen' [] rest
         else search_spec seed seen' pending' rest)"

text \<open>The other order of enumeration, in which the first level varies fastest.\<close>

definition first_level_fastest :: "knot list list \<Rightarrow> path list" where
  "first_level_fastest stack = map rev (product_lists (rev stack))"

text \<open>The text of a path whose fragments are all joined by the child combinator.\<close>

fun child_chain :: "path \<Rightarrow> string" where
  "child_chain [] = []"
| "child_chain [k] = name k"
| "child_chain (k # ks) = child_chain ks @ '' > '' @ name k"



text \<open>A path matches the targets when it renders to a selector that finds as many nodes
  as there are targets, every target among them: what the oracle answers true for.\<close>

definition matches_targets :: "env \<Rightarrow> ref \<Rightarrow> ref list \<Rightarrow> path \<Rightarrow> bool" where
  "matches_targets E rootDocument input p =
     (case selector p of
        Inl e \<Rightarrow> False
      | Inr css \<Rightarrow>
          querySelectorAll E rootDocument css \<noteq> [] \<and>
          length (querySelectorAll E rootDocument css) = length input \<and>
          set input \<subseteq> set (querySelectorAll E rootDocument css))"

text \<open>\<open>q\<close> comes from \<open>p\<close> by removing fragments of the interior only: it is shorter,
  keeps the order, and has the first and the last fragment of \<open>p\<close>.\<close>

definition interior :: "path \<Rightarrow> path \<Rightarrow> bool" where
  "interior q p = (q \<noteq> [] \<and> length q < length p \<and> hd q = hd p \<and> last q = last p \<and> subseq q p)"

text \<open>The test around the loop of the optimizer.\<close>

definition may_shorten :: "config \<Rightarrow> path \<Rightarrow> bool" where
  "may_shorten cfg p = (2 < length p \<and> optimizedMinLength cfg < int (length p))"





section \<open>A document for the examples\<close>

text \<open>
  \<open><html><body><section><div><p/></div></section><html/></body></html>\<close>: the last
  element is a second element of tag \<open>html\<close>, appended to the body by a script.
\<close>

definition ex_tree :: dnode where
  "ex_tree = DNode 9 [] [] []
     [DNode 1 ''HTML'' [] []
       [DNode 1 ''BODY'' [] []
         [DNode 1 ''SECTION'' [] [] [DNode 1 ''DIV'' [] [] [DNode 1 ''P'' [] [] []]],
          DNode 1 ''HTML'' [] [] []]]]"

definition ex_body :: ref where
  "ex_body = [0, 0]"

definition ex_section :: ref where
  "ex_section = [0, 0, 0]"

definition ex_p :: ref where
  "ex_p = [0, 0, 0, 0, 0]"

definition ex_html2 :: ref where
  "ex_html2 = [1, 0, 0]"

text \<open>The descendants of a scope are the references that end with it.\<close>

definition inside :: "ref \<Rightarrow> ref \<Rightarrow> bool" where
  "inside scope r = (length scope < length r \<and> drop (length r - length scope) r = scope)"

text \<open>The answers of the query engine on this document, for the selectors the examples
  ask: the elements that match in the document, kept when they lie inside the scope.\<close>

definition ex_query :: "ref \<Rightarrow> string \<Rightarrow> ref list" where
  "ex_query scope css =
     filter (inside scope)
       (if css = ''html'' then [[0], ex_html2]
        else if css \<in> set [''p'', ''section p'', ''div:nth-of-type(1) > p:nth-of-type(1)'']
        then [ex_p] else [])"

definition ex_env :: env where
  "ex_env = \<lparr> tree = ex_tree, body = Some ex_body, querySelectorAll = ex_query,
              escape = (\<lambda>s. s), clock = (\<lambda>k. 10 * int k) \<rparr>"

definition no_options :: options where
  "no_options = \<lparr> opt_root = None, opt_idName = None, opt_className = None, opt_tagName = None,
      opt_attr = None, opt_timeoutMs = None, opt_seedMinLength = None,
      opt_optimizedMinLength = None, opt_maxNumberOfPathChecks = None \<rparr>"

definition s0 :: state where
  "s0 = \<lparr> reads = 0, trace = [] \<rparr>"

definition frag_p :: knot where
  "frag_p = \<lparr> name = ''p'', penalty = Num 5, level = Some 0 \<rparr>"

definition frag_p_nth :: knot where
  "frag_p_nth = \<lparr> name = ''p:nth-of-type(1)'', penalty = Num 10, level = Some 0 \<rparr>"

definition frag_div :: knot where
  "frag_div = \<lparr> name = ''div'', penalty = Num 5, level = Some 1 \<rparr>"

definition frag_section :: knot where
  "frag_section = \<lparr> name = ''section'', penalty = Num 5, level = Some 2 \<rparr>"

definition frag_span :: knot where
  "frag_span = \<lparr> name = ''span'', penalty = Num 5, level = Some 0 \<rparr>"

definition frag_div_nth :: knot where
  "frag_div_nth = \<lparr> name = ''div:nth-of-type(1)'', penalty = Num 10, level = Some 1 \<rparr>"

text \<open>The default configuration with the section as the root, and the same with the
  seed length 1.\<close>

definition ex_cfg :: config where
  "ex_cfg = (defaults ex_env)\<lparr> root := Some ex_section \<rparr>"

definition ex_cfg1 :: config where
  "ex_cfg1 = (defaults ex_env)\<lparr> root := Some ex_section, seedMinLength := 1 \<rparr>"

text \<open>The section as the root; the same with a time budget of 0.\<close>

definition ex_options :: options where
  "ex_options = no_options\<lparr> opt_root := Some ex_section \<rparr>"


text \<open>
  A second document: inside \<open>main\<close>, an article \<open>#page\<close> with two sections, the first
  of them \<open>#top\<close>; each section holds a \<open>div\<close> with a list of two items of class
  \<open>item\<close>.  The targets are the two items of the first section.
\<close>

definition two_section :: "(string \<times> string) list \<Rightarrow> dnode" where
  "two_section attrs =
     DNode 1 ''SECTION'' attrs []
       [DNode 1 ''DIV'' [] []
         [DNode 1 ''UL'' [] []
           [DNode 1 ''LI'' [(''class'', ''item'')] [''item''] [],
            DNode 1 ''LI'' [(''class'', ''item'')] [''item''] []]]]"

definition two_tree :: dnode where
  "two_tree = DNode 9 [] [] []
     [DNode 1 ''HTML'' [] []
       [DNode 1 ''BODY'' [] []
         [DNode 1 ''MAIN'' [] []
           [DNode 1 ''ARTICLE'' [(''id'', ''page'')] []
             [two_section [(''id'', ''top'')], two_section []]]]]]"

definition two_main :: ref where
  "two_main = [0, 0, 0]"

definition two_li :: "nat \<Rightarrow> nat \<Rightarrow> ref" where
  "two_li k sec = [k, 0, 0, sec, 0, 0, 0, 0]"

text \<open>The answers of the query engine on the second document, for the selectors asked
  in the example: the items (or the first items of their lists) everywhere, or in the
  section \<open>#top\<close> only when the selector names that section.\<close>

definition two_table :: "(string \<times> ref list) list" where
  "two_table =
     (let everywhere = ['''', ''ul:nth-child(1) > '', ''div:nth-child(1) > ul:nth-child(1) > ''];
          in_top =
            concat (map (\<lambda>article. map (\<lambda>section.
                article @ section @ ''div:nth-child(1) > ul:nth-child(1) > '')
              [''#top > '', ''section:nth-child(1) > ''])
              ['''', ''#page > '', ''article:nth-child(1) > '']) @
            [''#page > #top > div:nth-child(1) '', ''#page > #top ul:nth-child(1) > '']
      in map (\<lambda>pre. (pre @ ''.item'', [two_li 0 0, two_li 1 0, two_li 0 1, two_li 1 1])) everywhere @
         map (\<lambda>pre. (pre @ ''li:nth-child(1)'', [two_li 0 0, two_li 0 1])) everywhere @
         map (\<lambda>pre. (pre @ ''.item'', [two_li 0 0, two_li 1 0])) in_top @
         map (\<lambda>pre. (pre @ ''li:nth-child(1)'', [two_li 0 0])) in_top)"

definition two_query :: "ref \<Rightarrow> string \<Rightarrow> ref list" where
  "two_query scope css =
     filter (inside scope) (case map_of two_table css of None \<Rightarrow> [] | Some hits \<Rightarrow> hits)"

text \<open>The clock of the example passes the time budget after its 19th reading.\<close>

definition two_env :: env where
  "two_env = \<lparr> tree = two_tree, body = Some [0, 0], querySelectorAll = two_query,
               escape = (\<lambda>s. s), clock = (\<lambda>k. if k < 19 then int k else 5000) \<rparr>"

text \<open>The options of the example: \<open>main\<close> as the root and no tag names.\<close>

definition two_options :: options where
  "two_options = no_options\<lparr> opt_root := Some two_main, opt_tagName := Some (\<lambda>tg. False) \<rparr>"


text \<open>The list of the first section, and the same options with that list as the root.\<close>

definition two_ul :: ref where
  "two_ul = [0, 0, 0, 0, 0, 0, 0]"

definition two_options_ul :: options where
  "two_options_ul = two_options\<lparr> opt_root := Some two_ul \<rparr>"

text \<open>The trace of the finder on the two items, most recent event first.\<close>

definition two_trace :: "event list" where
  "two_trace =
     [Now 5000, Now 5000,
      Query ByPermutations ''#page > #top ul:nth-child(1) > .item'',
      Query ByPermutations ''#page > #top > div:nth-child(1) .item'',
      Now 5000,
      Query BySearch ''article:nth-child(1) > section:nth-child(1) > div:nth-child(1) > ul:nth-child(1) > li:nth-child(1)'',
      Now 18,
      Query BySearch ''article:nth-child(1) > section:nth-child(1) > div:nth-child(1) > ul:nth-child(1) > .item'',
      Now 17,
      Query BySearch ''#page > section:nth-child(1) > div:nth-child(1) > ul:nth-child(1) > li:nth-child(1)'',
      Now 16,
      Query BySearch ''article:nth-child(1) > #top > div:nth-child(1) > ul:nth-child(1) > li:nth-child(1)'',
      Now 15,
      Query BySearch ''#page > section:nth-child(1) > div:nth-child(1) > ul:nth-child(1) > .item'',
      Now 14,
      Query BySearch ''article:nth-child(1) > #top > div:nth-child(1) > ul:nth-child(1) > .item'',
      Now 13,
      Query BySearch ''#page > #top > div:nth-child(1) > ul:nth-child(1) > li:nth-child(1)'',
      Now 12,
      Query BySearch ''#page > #top > div:nth-child(1) > ul:nth-child(1) > .item'',
      Now 11,
      Query BySearch ''section:nth-child(1) > div:nth-child(1) > ul:nth-child(1) > li:nth-child(1)'',
      Now 10,
      Query BySearch ''section:nth-child(1) > div:nth-child(1) > ul:nth-child(1) > .item'',
      Now 9,
      Query BySearch ''#top > div:nth-child(1) > ul:nth-child(1) > li:nth-child(1)'',
      Now 8,
      Query BySearch ''#top > div:nth-child(1) > ul:nth-child(1) > .item'',
      Now 7,
      Query BySearch ''div:nth-child(1) > ul:nth-child(1) > li:nth-child(1)'',
      Now 6,
      Query BySearch ''div:nth-child(1) > ul:nth-child(1) > .item'',
      Now 5,
      Query BySearch ''ul:nth-child(1) > li:nth-child(1)'',
      Now 4,
      Query BySearch ''ul:nth-child(1) > .item'',
      Now 3,
      Query BySearch ''li:nth-child(1)'',
      Now 2,
      Query BySearch ''.item'',
      Now 1, Now 0]"

section \<open>Evaluation rules for the examples\<close>

lemmas ex_defs = ex_tree_def ex_body_def ex_section_def ex_p_def ex_html2_def inside_def
  ex_query_def ex_env_def no_options_def s0_def

lemmas frag_defs = frag_p_def frag_p_nth_def frag_div_def frag_section_def

lemmas dom_defs = the_node_def parentNode_def parentElement_def child_refs_def ownerDocument_def
  getAttribute_def lower_char_def toLowerCase_def lower_tag_def indexOf_def nthChild_def
  nthOfType_def ELEMENT_NODE_def DOCUMENT_NODE_def show_nat.simps

lemmas tie_defs = tie_def tie_id_def tie_classes_def tie_attributes_def tie_tag_def tie_nth_def
  tagName_def

lemmas run_defs = finder_def as_array_def finder_select_def finder_result_def defaults_def merge_def
  findRootDocument_def search_def first_target_def search_loop.simps unique_def now_def
  selector_def optimize_def optimize_from.simps permuations_def permuations_from.simps
  fallback_def fallback_loop.simps array_sort_def byPenalty_def penalty_path_def splice1_def

lemmas word_defs = wordLike_def word_char_def separator_def vowel_def startsWith_def
  acceptedAttrNames_def

lemmas two_defs = two_section_def two_tree_def two_main_def two_li_def two_table_def
  two_query_def two_env_def two_options_def inside_def no_options_def s0_def

section \<open>Properties of the default attribute predicate\<close>

text \<open>
  C8 (as amended).  The default attribute predicate accepts a name/value pair if and only
  if the name is one of \<open>role\<close>, \<open>name\<close>, \<open>aria-label\<close>, \<open>rel\<close>, \<open>href\<close>, or begins
  with \<open>data-\<close> and is itself word-like, and the value is word-like and shorter than 100
  characters, or begins with \<open>#\<close> and has a word-like remainder.
\<close>

theorem attr_accepts:
  "attr nm val \<longleftrightarrow>
     (nm \<in> set acceptedAttrNames \<or> (startsWith nm ''data-'' \<and> wordLike nm)) \<and>
     ((wordLike val \<and> length val < 100) \<or> (startsWith val ''#'' \<and> wordLike (drop 1 val)))"
  by (auto simp: attr_def Let_def)

theorem attr_accepts_witness:
  "attr ''data-test'' ''#main'' \<and> attr ''role'' ''button'' \<and> \<not> attr ''title'' ''button''"
  using attr_accepts [of "''data-test''" "''#main''"] attr_accepts [of "''role''" "''button''"]
    attr_accepts [of "''title''" "''button''"]
  by (simp add: word_defs)

text \<open>As stated, C8 accepts every name that begins with \<open>data-\<close>.  The name \<open>data-id\<close>
  begins with \<open>data-\<close> and the value \<open>foo\<close> is word-like and short, yet the pair is
  refused: the word \<open>id\<close> of the name has fewer than three letters.\<close>

theorem attr_data_name_counterexample:
  "startsWith ''data-id'' ''data-'' \<and> wordLike ''foo'' \<and> length ''foo'' < 100 \<and>
   \<not> attr ''data-id'' ''foo''"
  by (simp add: attr_def word_defs)

section \<open>Properties of the renderer\<close>

lemma selector_loop_snoc:
  "selector_loop node q (ks @ [b]) =
     name b @ (if (case level (last (node # ks)) of None \<Rightarrow> False | Some m \<Rightarrow> level b = Some (Suc m))
               then '' > '' else '' '') @ selector_loop node q ks"
proof (induction ks arbitrary: node q)
  case Nil
  show ?case by (auto simp: Let_def split: option.splits)
next
  case (Cons k ks)
  show ?case using Cons.IH by (simp add: Let_def)
qed

text \<open>
  C7.  The renderer starts from the text of fragment 0 and goes through the path once;
  each further fragment \<open>b\<close>, coming after the fragment \<open>a\<close>, is put in front of the text
  so far, with the child combinator \<open>" > "\<close> exactly when the level of \<open>b\<close> is one greater
  than the level of \<open>a\<close>, and with a blank (the descendant combinator) otherwise.
\<close>

theorem selector_prepends:
  "selector [k] = Inr (name k) \<and>
   (selector (ks @ [a]) = Inr q \<longrightarrow>
    selector (ks @ [a, b]) =
      Inr (name b @ (if (case level a of None \<Rightarrow> False | Some m \<Rightarrow> level b = Some (Suc m))
                     then '' > '' else '' '') @ q))"
proof (cases ks)
  case Nil
  then show ?thesis by (auto simp: selector_def Let_def split: option.splits)
next
  case (Cons k' rest)
  have "selector_loop k' (name k') ((rest @ [a]) @ [b]) =
     name b @ (if (case level (last (k' # rest @ [a])) of None \<Rightarrow> False
                   | Some m \<Rightarrow> level b = Some (Suc m))
               then '' > '' else '' '') @ selector_loop k' (name k') (rest @ [a])"
    by (rule selector_loop_snoc)
  then show ?thesis using Cons by (simp add: selector_def)
qed

theorem selector_prepends_witness:
  "selector [frag_p] = Inr ''p'' \<and> selector [frag_p, frag_div] = Inr ''div > p'' \<and>
   selector [frag_p, frag_section] = Inr ''section p''"
proof -
  have 1: "selector [frag_p] = Inr ''p''"
    using selector_prepends [of frag_p "[]" frag_p "''p''" frag_div] by (simp add: frag_defs)
  have 2: "selector [frag_p, frag_div] = Inr ''div > p''"
    using 1 selector_prepends [of frag_p "[]" frag_p "''p''" frag_div] by (simp add: frag_defs)
  have 3: "selector [frag_p, frag_section] = Inr ''section p''"
    using 1 selector_prepends [of frag_p "[]" frag_p "''p''" frag_section]
    by (simp add: frag_defs)
  show ?thesis using 1 2 3 by simp
qed

section \<open>Scores and the order of candidates\<close>

lemma foldl_plus_number:
  "numeric p \<Longrightarrow> foldl plus_number (Num a) (map penalty p) = Num (a + score p)"
proof (induction p arbitrary: a)
  case Nil
  show ?case by (simp add: score_def)
next
  case (Cons k p)
  from Cons.prems obtain n where n: "penalty k = Num n" and p: "numeric p"
    by (cases "penalty k") (auto simp: numeric_def)
  have "score (k # p) = n + score p" using n by (simp add: score_def)
  then show ?case using Cons.IH [OF p, of "a + n"] n by (simp add: add.assoc)
qed

lemma penalty_path_numeric: "numeric p \<Longrightarrow> penalty_path p = Num (score p)"
  using foldl_plus_number [of p 0] by (simp add: penalty_path_def)

lemma byPenalty_numeric:
  "numeric a \<Longrightarrow> numeric b \<Longrightarrow> byPenalty a b = Num (score a - score b)"
  by (simp add: byPenalty_def penalty_path_numeric)

lemma insert_sorted_insort:
  "numeric x \<Longrightarrow> list_all numeric ys \<Longrightarrow> insert_sorted byPenalty x ys = insort_key score x ys"
  by (induction ys) (auto simp: byPenalty_numeric)

lemma array_sort_sort_key:
  "list_all numeric ps \<Longrightarrow> array_sort byPenalty ps = sort_key score ps"
proof (induction ps)
  case Nil
  show ?case by (simp add: array_sort_def)
next
  case (Cons x ps)
  then have x: "numeric x" and ps: "list_all numeric ps" by simp_all
  have "list_all numeric (sort_key score ps)" using ps by (simp add: list_all_iff)
  then show ?case using Cons.IH [OF ps] x
    by (simp add: array_sort_def insert_sorted_insort)
qed

text \<open>
  C3 (as amended).  The score of a path is the sum of its fragments' penalties, and the
  comparison of two paths is the difference of their scores: sorting puts \<open>a\<close> before
  \<open>b\<close> when the score of \<open>a\<close> is lower, and when the scores are equal it leaves the two
  paths in the order they had, whatever their lengths.  Sorting a list of paths is the
  stable sort by ascending score.
\<close>

theorem byPenalty_ranks:
  "numeric a \<Longrightarrow> numeric b \<Longrightarrow>
     penalty_path a = Num (score a) \<and>
     byPenalty a b = Num (score a - score b) \<and>
     array_sort byPenalty [a, b] = (if score b < score a then [b, a] else [a, b]) \<and>
     array_sort byPenalty [b, a] = (if score a < score b then [a, b] else [b, a]) \<and>
     (list_all numeric ps \<longrightarrow>
        array_sort byPenalty ps = sort_key score ps \<and> sorted (map score (array_sort byPenalty ps)))"
  by (simp add: byPenalty_numeric penalty_path_numeric array_sort_def [of _ "[a, b]"]
      array_sort_def [of _ "[b, a]"] array_sort_sort_key)

theorem byPenalty_ranks_witness:
  "numeric [frag_p] \<and> numeric [frag_p, frag_div] \<and>
   penalty_path [frag_p] = Num 5 \<and>
   byPenalty [frag_p] [frag_p, frag_div] = Num (- 5) \<and>
   array_sort byPenalty [[frag_p], [frag_p, frag_div]] = [[frag_p], [frag_p, frag_div]] \<and>
   array_sort byPenalty [[frag_p, frag_div], [frag_p]] = [[frag_p], [frag_p, frag_div]]"
proof -
  have n: "numeric [frag_p]" "numeric [frag_p, frag_div]"
    by (simp_all add: numeric_def frag_defs)
  have sc: "score [frag_p] = 5" "score [frag_p, frag_div] = 10"
    by (simp_all add: score_def frag_defs)
  show ?thesis using n byPenalty_ranks [OF n] by (simp add: sc)
qed

text \<open>As stated, C3 ranks the path with fewer fragments first when the scores are equal.
  The path of the one fragment \<open>p:nth-of-type(1)\<close> and the path \<open>div > p\<close> of two
  fragments both score 10; the comparison is 0 both ways and the sort leaves the longer
  path first.\<close>

theorem byPenalty_length_counterexample:
  "byPenalty [frag_p_nth] [frag_p, frag_div] = Num 0 \<and>
   byPenalty [frag_p, frag_div] [frag_p_nth] = Num 0 \<and>
   length [frag_p_nth] < length [frag_p, frag_div] \<and>
   array_sort byPenalty [[frag_p, frag_div], [frag_p_nth]] = [[frag_p, frag_div], [frag_p_nth]]"
  by (simp add: byPenalty_def penalty_path_def array_sort_def frag_defs)

section \<open>Properties of the uniqueness oracle\<close>

text \<open>
  What the oracle computes.  For a path that renders to the selector \<open>css\<close>, it raises
  the no-match error exactly when the query for \<open>css\<close> in the scope finds no node.
  Otherwise it answers true if and only if the list of the nodes found is as long as the
  list of the targets and every target is among the nodes found.  For targets without
  repetition (the query never repeats a node) that is the equality of the two sets.
\<close>

lemma unique_oracle:
  "selector p = Inr css \<Longrightarrow>
     fst (unique E who p ts rootDocument s) =
       (if querySelectorAll E rootDocument css = [] then Inl (NoMatch css)
        else Inr (length (querySelectorAll E rootDocument css) = length ts \<and>
                  set ts \<subseteq> set (querySelectorAll E rootDocument css))) \<and>
     ((fst (unique E who p ts rootDocument s) = Inl (NoMatch css)) =
        (querySelectorAll E rootDocument css = [])) \<and>
     (distinct ts \<and> distinct (querySelectorAll E rootDocument css) \<and>
      querySelectorAll E rootDocument css \<noteq> [] \<longrightarrow>
        (fst (unique E who p ts rootDocument s) = Inr True) =
          (set (querySelectorAll E rootDocument css) = set ts))"
proof -
  assume sel: "selector p = Inr css"
  let ?found = "querySelectorAll E rootDocument css"
  have main: "fst (unique E who p ts rootDocument s) =
       (if ?found = [] then Inl (NoMatch css)
        else Inr (length ?found = length ts \<and> set ts \<subseteq> set ?found))"
    using sel by (auto simp: unique_def Let_def list_all_iff)
  have seteq: "(length ?found = length ts \<and> set ts \<subseteq> set ?found) = (set ?found = set ts)"
    if d: "distinct ts" "distinct ?found"
  proof
    assume a: "length ?found = length ts \<and> set ts \<subseteq> set ?found"
    have "card (set ts) = card (set ?found)" using d a by (simp add: distinct_card)
    then show "set ?found = set ts"
      using a card_subset_eq [of "set ?found" "set ts"] by auto
  next
    assume a: "set ?found = set ts"
    have "length ?found = card (set ?found)" using d by (simp add: distinct_card)
    also have "\<dots> = length ts" using a d by (simp add: distinct_card)
    finally show "length ?found = length ts \<and> set ts \<subseteq> set ?found" using a by simp
  qed
  show ?thesis using main seteq by auto
qed

lemma unique_oracle_examples:
  "selector [frag_p] = Inr ''p'' \<and>
   fst (unique ex_env BySearch [frag_p] [ex_p] ex_section s0) = Inr True \<and>
   selector [frag_span] = Inr ''span'' \<and>
   fst (unique ex_env BySearch [frag_span] [ex_p] ex_section s0) = Inl (NoMatch ''span'') \<and>
   selector [frag_p, frag_section] = Inr ''section p'' \<and>
   fst (unique ex_env BySearch [frag_p, frag_section] [ex_p, ex_section] ex_body s0) = Inr False"
proof -
  have 1: "selector [frag_p] = Inr ''p''" by (simp add: selector_def frag_defs)
  have 2: "selector [frag_span] = Inr ''span''" by (simp add: selector_def frag_span_def)
  have 3: "selector [frag_p, frag_section] = Inr ''section p''"
    by (simp add: selector_def frag_defs)
  show ?thesis
    using 1 2 3 unique_oracle [OF 1, of ex_env BySearch "[ex_p]" ex_section s0]
      unique_oracle [OF 2, of ex_env BySearch "[ex_p]" ex_section s0]
      unique_oracle [OF 3, of ex_env BySearch "[ex_p, ex_section]" ex_body s0]
    by (simp add: ex_defs)
qed

text \<open>
  C2.  The oracle is to answer true exactly when the set of the nodes found is the set of
  the targets.  The code compares the length of the list of targets with the number of
  nodes found, so a target listed twice passes together with one foreign node.  In the
  second document the selector \<open>li:nth-child(1)\<close> finds the first item of each section,
  and for the first item of the first section listed twice the oracle answers true,
  though the two sets differ.  The finder reaches the oracle with such a list: called on
  that item listed twice, with the list of the first section as the root, it returns
  \<open>.item\<close>, which finds both items of the list.
\<close>

theorem unique_repeated_target:
  "querySelectorAll two_env two_main ''li:nth-child(1)'' = [two_li 0 0, two_li 0 1] \<and>
   fst (unique two_env BySearch [\<lparr> name = ''li:nth-child(1)'', penalty = Num 50, level = Some 0 \<rparr>]
          [two_li 0 0, two_li 0 0] two_main s0) = Inr True \<and>
   set (querySelectorAll two_env two_main ''li:nth-child(1)'') \<noteq> set [two_li 0 0, two_li 0 0] \<and>
   finder two_env (Multiple [two_li 0 0, two_li 0 0]) two_options_ul s0 =
     (Inr ''.item'',
      \<lparr> reads = 3,
        trace = [Query BySearch ''li:nth-child(1)'', Now 2, Query BySearch ''.item'', Now 1, Now 0] \<rparr>) \<and>
   querySelectorAll two_env two_ul ''.item'' = [two_li 0 0, two_li 1 0] \<and>
   set (querySelectorAll two_env two_ul ''.item'') \<noteq> set [two_li 0 0, two_li 0 0]"
  by (simp add: two_defs two_ul_def two_options_ul_def dom_defs tie_defs run_defs word_defs
      idName_def className_def attr_def Let_def)

section \<open>The finder on no targets\<close>

text \<open>
  C10.  Called with an empty array of targets, the finder raises no error, reads no clock
  and asks the document nothing: no target is a non-element and every target has the tag
  \<open>html\<close>, so it returns the text \<open>html\<close> at once, in the state it was called in.
\<close>

theorem finder_empty_targets:
  "finder E (Multiple []) opts s = (Inr ''html'', s)"
  by (simp add: finder_def as_array_def)

theorem finder_empty_targets_witness:
  "finder ex_env (Multiple []) no_options s0 = (Inr ''html'', \<lparr> reads = 0, trace = [] \<rparr>)"
  using finder_empty_targets [of ex_env no_options s0] by (simp add: s0_def)

section \<open>Properties of the path search\<close>

lemma combinations_product: "combinations stack p = map ((@) p) (product_lists stack)"
proof (induction stack arbitrary: p)
  case Nil
  show ?case by simp
next
  case (Cons lv stack)
  show ?case by (simp add: Cons.IH map_concat comp_def)
qed

lemma combinations_nil: "combinations stack [] = product_lists stack"
proof -
  have "map ((@) []) (product_lists stack) = map (\<lambda>x. x) (product_lists stack)"
    by (rule map_cong) simp_all
  then show ?thesis by (simp add: combinations_product)
qed

lemma tie_numeric: "k \<in> set (tie E cfg c) \<Longrightarrow> penalty k \<noteq> NaN"
  by (auto simp: tie_def tie_id_def tie_classes_def tie_attributes_def tie_tag_def tie_nth_def
      Let_def split: option.splits if_splits)

lemma stamp_numeric: "numeric (stamp i (tie E cfg c))"
  by (auto simp: numeric_def stamp_def list_all_iff dest: tie_numeric)

lemma product_lists_numeric:
  "list_all numeric stack \<Longrightarrow> list_all numeric (product_lists stack)"
  by (induction stack) (auto simp: list_all_iff numeric_def)

lemma search_loop_spec:
  "length stack = i \<Longrightarrow> list_all numeric stack \<Longrightarrow> list_all numeric paths \<Longrightarrow>
   search_loop E cfg rootDocument current i stack paths =
     search_spec (seedMinLength cfg) stack paths
       (levels_from E cfg i (ancestors E rootDocument current))"
proof (induction E cfg rootDocument current i stack paths rule: search_loop.induct)
  case (1 E cfg rootDocument current i stack paths)
  show ?case
  proof (cases current)
    case None
    then show ?thesis using "1.prems"
      by (simp add: search_loop.simps ancestors.simps levels_from_def array_sort_sort_key)
  next
    case (Some c)
    show ?thesis
    proof (cases "c = rootDocument")
      case True
      then show ?thesis using Some "1.prems"
        by (simp add: search_loop.simps ancestors.simps levels_from_def array_sort_sort_key)
    next
      case False
      let ?lv = "stamp i (tie E cfg c)"
      let ?stack = "stack @ [?lv]"
      let ?paths = "paths @ product_lists ?stack"
      have st: "list_all numeric ?stack" using "1.prems" by (simp add: stamp_numeric)
      have ps: "list_all numeric ?paths" using "1.prems" st by (simp add: product_lists_numeric)
      have len: "length ?stack = i + 1" using "1.prems" by simp
      have lv: "levels_from E cfg i (ancestors E rootDocument current) =
          ?lv # levels_from E cfg (i + 1) (ancestors E rootDocument (parentElement E c))"
        using Some False by (simp add: ancestors.simps [of E rootDocument "Some c"] levels_from_def)
      show ?thesis
      proof (cases "seedMinLength cfg \<le> int (i + 1)")
        case True
        have ih: "search_loop E cfg rootDocument (parentElement E c) (i + 1) ?stack [] =
            search_spec (seedMinLength cfg) ?stack []
              (levels_from E cfg (i + 1) (ancestors E rootDocument (parentElement E c)))"
          using "1.IH"(1) [OF Some False _ refl refl True len st] by (simp add: stamp_def combinations_nil)
        show ?thesis
          using Some False True ih lv len ps "1.prems"
          by (simp add: search_loop.simps [of E cfg rootDocument "Some c"] stamp_def
              combinations_nil array_sort_sort_key Let_def)
      next
        case nt: False
        have ih: "search_loop E cfg rootDocument (parentElement E c) (i + 1) ?stack ?paths =
            search_spec (seedMinLength cfg) ?stack ?paths
              (levels_from E cfg (i + 1) (ancestors E rootDocument (parentElement E c)))"
          using "1.IH"(2) [OF Some False _ refl refl nt len st] ps by (simp add: stamp_def combinations_nil)
        show ?thesis
          using Some False nt ih lv len "1.prems"
          by (simp add: search_loop.simps [of E cfg rootDocument "Some c"] stamp_def
              combinations_nil Let_def)
      qed
    qed
  qed
qed


lemma search_is_spec:
  "search E input cfg rootDocument =
     search_spec (seedMinLength cfg) [] [] (levels E cfg rootDocument input)"
  using search_loop_spec [of "[]" 0 "[]" E cfg rootDocument "first_target input"]
  by (simp add: search_def levels_def)

text \<open>
  C4 (as amended).  After each new ancestor level is pushed, the search appends to the
  pending list the full Cartesian product of one fragment from each level seen so far,
  enumerated depth-first with the first level (level 0, the target's own fragments)
  varying slowest and the newest level fastest; once the depth counter has reached
  \<open>seedMinLength\<close>, the pending list is sorted by ascending score, yielded in that
  order and cleared, and this is done again after every further level; what is pending
  when the ancestors end is sorted and yielded as well.
\<close>

theorem search_batches:
  "search E input cfg rootDocument =
     search_spec (seedMinLength cfg) [] [] (levels E cfg rootDocument input) \<and>
   combinations stack [] = product_lists stack"
  using search_is_spec combinations_nil by simp

lemmas spec_defs = levels_def levels_from_def ancestors.simps stamp_def score_def

text \<open>The candidates for the paragraph of the example under the section, with the seed
  length 1: the three paths of depth 1 by ascending score, then the nine of depth 2.\<close>

theorem search_batches_witness:
  "map (map name) (search ex_env [ex_p] ex_cfg1 ex_section) =
     [[''p''], [''p:nth-of-type(1)''], [''p:nth-child(1)''],
      [''p'', ''div''], [''p'', ''div:nth-of-type(1)''], [''p:nth-of-type(1)'', ''div''],
      [''p:nth-of-type(1)'', ''div:nth-of-type(1)''], [''p'', ''div:nth-child(1)''],
      [''p:nth-child(1)'', ''div''], [''p:nth-of-type(1)'', ''div:nth-child(1)''],
      [''p:nth-child(1)'', ''div:nth-of-type(1)''], [''p:nth-child(1)'', ''div:nth-child(1)'']]"
  using search_batches [of ex_env "[ex_p]" ex_cfg1 ex_section "[]"]
  by (simp add: ex_cfg1_def spec_defs ex_defs dom_defs tie_defs defaults_def first_target_def)

text \<open>As stated, C4 has the first level vary fastest.  On two levels of two fragments
  each, the second path of the enumeration keeps the fragment of level 0 and changes
  that of level 1.\<close>

theorem combinations_order_counterexample:
  "combinations [[frag_p, frag_p_nth], [frag_div, frag_div_nth]] [] =
     [[frag_p, frag_div], [frag_p, frag_div_nth], [frag_p_nth, frag_div], [frag_p_nth, frag_div_nth]] \<and>
   first_level_fastest [[frag_p, frag_p_nth], [frag_div, frag_div_nth]] =
     [[frag_p, frag_div], [frag_p_nth, frag_div], [frag_p, frag_div_nth], [frag_p_nth, frag_div_nth]] \<and>
   combinations [[frag_p, frag_p_nth], [frag_div, frag_div_nth]] [] \<noteq>
     first_level_fastest [[frag_p, frag_p_nth], [frag_div, frag_div_nth]]"
  by (simp add: first_level_fastest_def frag_defs frag_div_nth_def)

lemma search_spec_members:
  "p \<in> set (search_spec seed seen pending lvs) \<Longrightarrow>
     p \<in> set pending \<or> (\<exists>d. 1 \<le> d \<and> d \<le> length lvs \<and> p \<in> set (product_lists (seen @ take d lvs)))"
proof (induction lvs arbitrary: seen pending)
  case Nil
  then show ?case by simp
next
  case (Cons lv lvs)
  let ?seen = "seen @ [lv]"
  let ?pending = "pending @ product_lists ?seen"
  have here: "p \<in> set ?pending \<Longrightarrow> ?case"
  proof -
    assume "p \<in> set ?pending"
    then consider "p \<in> set pending" | "p \<in> set (product_lists (seen @ take 1 (lv # lvs)))"
      by auto
    then show ?case
    proof cases
      case 1
      then show ?thesis by simp
    next
      case 2
      have "(1::nat) \<le> 1 \<and> 1 \<le> length (lv # lvs)" by simp
      then show ?thesis using 2 by blast
    qed
  qed
  have later: "\<exists>d. 1 \<le> d \<and> d \<le> length lvs \<and> p \<in> set (product_lists (?seen @ take d lvs)) \<Longrightarrow> ?case"
  proof -
    assume "\<exists>d. 1 \<le> d \<and> d \<le> length lvs \<and> p \<in> set (product_lists (?seen @ take d lvs))"
    then obtain d where d: "1 \<le> d" "d \<le> length lvs" "p \<in> set (product_lists (?seen @ take d lvs))"
      by blast
    have "1 \<le> Suc d \<and> Suc d \<le> length (lv # lvs) \<and>
        p \<in> set (product_lists (seen @ take (Suc d) (lv # lvs)))"
      using d by simp
    then show ?case by blast
  qed
  show ?case
  proof (cases "seed \<le> int (length ?seen)")
    case True
    with Cons.prems have "p \<in> set ?pending \<or> p \<in> set (search_spec seed ?seen [] lvs)"
      by (auto simp: Let_def)
    then show ?thesis using here later Cons.IH [of ?seen "[]"] by auto
  next
    case False
    with Cons.prems have "p \<in> set (search_spec seed ?seen ?pending lvs)"
      by (auto simp: Let_def)
    then show ?thesis using here later Cons.IH [of ?seen ?pending] by blast
  qed
qed

lemma selector_loop_child_chain:
  "level node = Some m \<Longrightarrow> \<forall>j<length rest. level (rest ! j) = Some (Suc (m + j)) \<Longrightarrow>
   selector_loop node query rest = (if rest = [] then query else child_chain rest @ '' > '' @ query)"
proof (induction rest arbitrary: node query m)
  case Nil
  show ?case by simp
next
  case (Cons k rest)
  have k: "level k = Some (Suc m)" using Cons.prems(2) by force
  have r: "\<forall>j<length rest. level (rest ! j) = Some (Suc (Suc m + j))"
    using Cons.prems(2) by force
  have step: "selector_loop node query (k # rest) = selector_loop k (name k @ '' > '' @ query) rest"
    using k Cons.prems(1) by (simp add: Let_def)
  show ?case
  proof (cases rest)
    case Nil
    then show ?thesis using step by simp
  next
    case (Cons k' rest')
    then show ?thesis using step Cons.IH [OF k r, of "name k @ '' > '' @ query"] by simp
  qed
qed

lemma selector_child_chain:
  "p \<noteq> [] \<Longrightarrow> \<forall>j<length p. level (p ! j) = Some j \<Longrightarrow> selector p = Inr (child_chain p)"
proof (cases p)
  case Nil
  assume "p \<noteq> []"
  with Nil show ?thesis by simp
next
  case (Cons k rest)
  assume lv: "\<forall>j<length p. level (p ! j) = Some j"
  have k: "level k = Some 0" using lv Cons by force
  have r: "\<forall>j<length rest. level (rest ! j) = Some (Suc (0 + j))" using lv Cons by force
  show ?thesis
    using selector_loop_child_chain [OF k r, of "name k"] Cons
    by (cases rest) (simp_all add: selector_def)
qed

lemma levels_from_nth:
  "j < length cs \<Longrightarrow> levels_from E cfg i cs ! j = stamp (i + j) (tie E cfg (cs ! j))"
  by (simp add: levels_from_def nth_enumerate_eq)

lemma length_levels_from: "length (levels_from E cfg i cs) = length cs"
  by (simp add: levels_from_def)

text \<open>
  C9.  Every candidate the search yields is a non-empty path with one fragment for each
  of the first ancestor levels: its fragment \<open>j\<close> is one of the fragments of the
  \<open>j\<close>-th ancestor and carries the level \<open>j\<close>.  So its selector joins every two
  neighbours with the child combinator \<open>" > "\<close> and never with the descendant
  combinator.
\<close>

theorem search_candidates_consecutive:
  "p \<in> set (search E input cfg rootDocument) \<Longrightarrow>
     p \<noteq> [] \<and>
     length p \<le> length (ancestors E rootDocument (first_target input)) \<and>
     (\<forall>j<length p. p ! j \<in> set (stamp j (tie E cfg (ancestors E rootDocument (first_target input) ! j)))) \<and>
     (\<forall>j<length p. level (p ! j) = Some j) \<and>
     selector p = Inr (child_chain p)"
proof -
  assume "p \<in> set (search E input cfg rootDocument)"
  let ?cs = "ancestors E rootDocument (first_target input)"
  let ?L = "levels_from E cfg 0 ?cs"
  from \<open>p \<in> set (search E input cfg rootDocument)\<close>
  have "p \<in> set (search_spec (seedMinLength cfg) [] [] ?L)"
    by (simp add: search_is_spec levels_def)
  from search_spec_members [OF this]
  obtain d where d: "1 \<le> d" "d \<le> length ?L" "p \<in> set (product_lists (take d ?L))"
    by auto
  have l2: "list_all2 (\<lambda>x ys. x \<in> set ys) p (take d ?L)"
    using d(3) by (simp add: product_lists_set)
  have len: "length p = d" using l2 d(2) by (auto dest: list_all2_lengthD)
  have dn: "d \<le> length ?cs" using d(2) by (simp add: length_levels_from)
  have mem: "p ! j \<in> set (stamp j (tie E cfg (?cs ! j)))" if "j < length p" for j
  proof -
    have "p ! j \<in> set (take d ?L ! j)" using l2 that by (rule list_all2_nthD)
    moreover have "take d ?L ! j = stamp (0 + j) (tie E cfg (?cs ! j))"
      using that len dn by (simp add: levels_from_nth)
    ultimately show ?thesis by simp
  qed
  have lev: "level (p ! j) = Some j" if "j < length p" for j
    using mem [OF that] by (auto simp: stamp_def)
  have ne: "p \<noteq> []" using len d(1) by auto
  show ?thesis using ne len dn mem lev selector_child_chain [OF ne] by simp
qed


lemma ex_search:
  "search ex_env [ex_p] ex_cfg ex_section =
     [[frag_p], [frag_p_nth], [frag_p, frag_div], [frag_p, frag_div_nth],
      [frag_p_nth, frag_div], [frag_p_nth, frag_div_nth],
      [\<lparr>name = ''p:nth-child(1)'', penalty = Num 50, level = Some 0\<rparr>],
      [frag_p, \<lparr>name = ''div:nth-child(1)'', penalty = Num 50, level = Some 1\<rparr>],
      [\<lparr>name = ''p:nth-child(1)'', penalty = Num 50, level = Some 0\<rparr>, frag_div],
      [frag_p_nth, \<lparr>name = ''div:nth-child(1)'', penalty = Num 50, level = Some 1\<rparr>],
      [\<lparr>name = ''p:nth-child(1)'', penalty = Num 50, level = Some 0\<rparr>, frag_div_nth],
      [\<lparr>name = ''p:nth-child(1)'', penalty = Num 50, level = Some 0\<rparr>,
       \<lparr>name = ''div:nth-child(1)'', penalty = Num 50, level = Some 1\<rparr>]]"
  by (simp add: ex_cfg_def ex_defs dom_defs tie_defs run_defs frag_defs frag_div_nth_def Let_def)

theorem search_candidates_consecutive_witness:
  "[frag_p, frag_div] \<in> set (search ex_env [ex_p] ex_cfg ex_section) \<and>
   level ([frag_p, frag_div] ! 1) = Some 1 \<and>
   selector [frag_p, frag_div] = Inr ''div > p''"
proof -
  have m: "[frag_p, frag_div] \<in> set (search ex_env [ex_p] ex_cfg ex_section)"
    by (simp add: ex_search)
  show ?thesis
    using m search_candidates_consecutive [OF m] by (simp add: frag_defs)
qed

section \<open>The clock readings and the queries of a run\<close>

lemma now_eq:
  "now E s = (clock E (reads s), \<lparr> reads = reads s + 1, trace = Now (clock E (reads s)) # trace s \<rparr>)"
  by (simp add: now_def)

lemma unique_result:
  "unique E who p ts rootDocument s = (r, s') \<Longrightarrow>
     (\<exists>e. r = Inl e \<and> s' = s \<and> selector p = Inl e) \<or>
     (\<exists>css. selector p = Inr css \<and> s' = s\<lparr> trace := Query who css # trace s \<rparr> \<and>
        r = (if querySelectorAll E rootDocument css = [] then Inl (NoMatch css)
             else Inr (length (querySelectorAll E rootDocument css) = length ts \<and>
                       set ts \<subseteq> set (querySelectorAll E rootDocument css))))"
  by (auto simp: unique_def Let_def list_all_iff split: sum.splits if_splits)

lemma unique_True_matches:
  "unique E who p ts rootDocument s = (Inr True, s') \<Longrightarrow> matches_targets E rootDocument ts p"
  by (drule unique_result) (auto simp: matches_targets_def split: if_splits)












lemma set_insert_sorted: "set (insert_sorted cmp x ys) = insert x (set ys)"
  by (induction ys) auto

lemma set_array_sort: "set (array_sort cmp xs) = set xs"
  by (induction xs) (simp_all add: array_sort_def set_insert_sorted)

section \<open>Properties of the optimizer\<close>

lemma optimize_from_unfold:
  "optimize_from E input cfg rootDocument startTime p i s =
     (if may_shorten cfg p \<and> i < length p - 1
      then
        (if exceeds (clock E (reads s) - startTime) (timeoutMs cfg) then (Inr [], snd (now E s))
         else
           (case unique E ByOptimize (splice1 i p) input rootDocument (snd (now E s)) of
              (Inl e, s2) \<Rightarrow> (Inl e, s2)
            | (Inr True, s2) \<Rightarrow>
                (case optimize_from E input cfg rootDocument startTime (splice1 i p) 1 s2 of
                   (Inl e, s3) \<Rightarrow> (Inl e, s3)
                 | (Inr ys, s3) \<Rightarrow>
                     (case optimize_from E input cfg rootDocument startTime p (i + 1) s3 of
                        (Inl e, s4) \<Rightarrow> (Inl e, s4)
                      | (Inr zs, s4) \<Rightarrow> (Inr (splice1 i p # ys @ zs), s4)))
            | (Inr False, s2) \<Rightarrow> optimize_from E input cfg rootDocument startTime p (i + 1) s2))
      else (Inr [], s))"
  by (subst optimize_from.simps) (simp add: may_shorten_def now_eq)

lemma optimize_from_induct2 [case_names step]:
  assumes step: "\<And>p i s.
     (\<And>s2. may_shorten cfg p \<Longrightarrow> i < length p - 1 \<Longrightarrow>
        \<not> exceeds (clock E (reads s) - startTime) (timeoutMs cfg) \<Longrightarrow>
        unique E ByOptimize (splice1 i p) input rootDocument (snd (now E s)) = (Inr True, s2) \<Longrightarrow>
        P (splice1 i p) 1 s2) \<Longrightarrow>
     (\<And>s2 ys s3. may_shorten cfg p \<Longrightarrow> i < length p - 1 \<Longrightarrow>
        \<not> exceeds (clock E (reads s) - startTime) (timeoutMs cfg) \<Longrightarrow>
        unique E ByOptimize (splice1 i p) input rootDocument (snd (now E s)) = (Inr True, s2) \<Longrightarrow>
        optimize_from E input cfg rootDocument startTime (splice1 i p) 1 s2 = (Inr ys, s3) \<Longrightarrow>
        P p (i + 1) s3) \<Longrightarrow>
     (\<And>s2. may_shorten cfg p \<Longrightarrow> i < length p - 1 \<Longrightarrow>
        \<not> exceeds (clock E (reads s) - startTime) (timeoutMs cfg) \<Longrightarrow>
        unique E ByOptimize (splice1 i p) input rootDocument (snd (now E s)) = (Inr False, s2) \<Longrightarrow>
        P p (i + 1) s2) \<Longrightarrow>
     P p i s"
  shows "P p i s"
proof -
  have "E' = E \<Longrightarrow> input' = input \<Longrightarrow> cfg' = cfg \<Longrightarrow> root' = rootDocument \<Longrightarrow>
        st' = startTime \<Longrightarrow> P p i s" for E' input' cfg' root' st'
  proof (induction E' input' cfg' root' st' p i s rule: optimize_from.induct)
    case (1 E' input' cfg' root' st' p i s)
    note eqs = "1.prems"
    show ?case
    proof (rule step)
      fix s2
      assume "may_shorten cfg p" "i < length p - 1"
        "\<not> exceeds (clock E (reads s) - startTime) (timeoutMs cfg)"
        "unique E ByOptimize (splice1 i p) input rootDocument (snd (now E s)) = (Inr True, s2)"
      then show "P (splice1 i p) 1 s2"
        using "1.IH"(1) [of "clock E (reads s)" "snd (now E s)" "Inr True" s2 True] eqs
        by (simp add: may_shorten_def now_eq)
    next
      fix s2 ys s3
      assume "may_shorten cfg p" "i < length p - 1"
        "\<not> exceeds (clock E (reads s) - startTime) (timeoutMs cfg)"
        "unique E ByOptimize (splice1 i p) input rootDocument (snd (now E s)) = (Inr True, s2)"
        "optimize_from E input cfg rootDocument startTime (splice1 i p) 1 s2 = (Inr ys, s3)"
      then show "P p (i + 1) s3"
        using "1.IH"(2) [of "clock E (reads s)" "snd (now E s)" "Inr True" s2 True "Inr ys" s3 ys] eqs
        by (simp add: may_shorten_def now_eq)
    next
      fix s2
      assume "may_shorten cfg p" "i < length p - 1"
        "\<not> exceeds (clock E (reads s) - startTime) (timeoutMs cfg)"
        "unique E ByOptimize (splice1 i p) input rootDocument (snd (now E s)) = (Inr False, s2)"
      then show "P p (i + 1) s2"
        using "1.IH"(3) [of "clock E (reads s)" "snd (now E s)" "Inr False" s2 False] eqs
        by (simp add: may_shorten_def now_eq)
    qed
  qed
  then show ?thesis by simp
qed


lemma interior_splice1:
  assumes "1 \<le> i" "i < length p - 1"
  shows "interior (splice1 i p) p"
proof -
  have p: "p = take i p @ p ! i # drop (Suc i) p" using assms by (simp add: id_take_nth_drop)
  have t: "take i p \<noteq> []" using assms by auto
  have d: "drop (Suc i) p \<noteq> []" using assms by auto
  have "hd (splice1 i p) = hd (take i p)" using t by (simp add: splice1_def)
  also have "\<dots> = hd p" using assms by (cases p) (auto simp: take_Suc_conv_app_nth hd_take)
  finally have h: "hd (splice1 i p) = hd p" .
  have "last (splice1 i p) = last (drop (Suc i) p)" using d by (simp add: splice1_def)
  also have "\<dots> = last p" using assms by (simp add: last_drop)
  finally have l: "last (splice1 i p) = last p" .
  have "subseq (take i p @ drop (Suc i) p) (take i p @ p ! i # drop (Suc i) p)"
    by (intro list_emb_append_mono subseq_order.refl list_emb_Cons) 
  then have sub: "subseq (splice1 i p) p" using p by (simp add: splice1_def)
  have len: "length (splice1 i p) < length p" using assms by (simp add: splice1_def)
  show ?thesis using t h l sub len by (simp add: interior_def splice1_def)
qed

lemma interior_trans: "interior q r \<Longrightarrow> interior r p \<Longrightarrow> interior q p"
  by (auto simp: interior_def intro: subseq_order.trans)

lemma optimize_from_yields:
  "optimize_from E input cfg rootDocument startTime p i s = (Inr ys, s') \<Longrightarrow> 1 \<le> i \<Longrightarrow>
     q \<in> set ys \<Longrightarrow> matches_targets E rootDocument input q \<and> interior q p"
proof (induction p i s arbitrary: ys s' q rule: optimize_from_induct2 [of cfg E startTime input rootDocument])
  case (step p i s)
  note eq = step.prems(1) [unfolded optimize_from_unfold [of E input cfg rootDocument startTime p i s]]
  show ?case
  proof (cases "may_shorten cfg p \<and> i < length p - 1")
    case False
    then show ?thesis using eq step.prems(3) by auto
  next
    case g: True
    show ?thesis
    proof (cases "exceeds (clock E (reads s) - startTime) (timeoutMs cfg)")
      case True
      then show ?thesis using eq g step.prems(3) by auto
    next
      case ne: False
      obtain ru s2 where u: "unique E ByOptimize (splice1 i p) input rootDocument (snd (now E s)) = (ru, s2)"
        by (cases "unique E ByOptimize (splice1 i p) input rootDocument (snd (now E s))")
      show ?thesis
      proof (cases ru)
        case (Inl e)
        then show ?thesis using eq g ne u by auto
      next
        case (Inr b)
        show ?thesis
        proof (cases b)
          case False
          then have "optimize_from E input cfg rootDocument startTime p (i + 1) s2 = (Inr ys, s')"
            using eq g ne u Inr by simp
          from step.IH(3) [OF _ _ ne _ this _ step.prems(3)] g u Inr False
          show ?thesis by simp
        next
          case True
          have u': "unique E ByOptimize (splice1 i p) input rootDocument (snd (now E s)) = (Inr True, s2)"
            using u Inr True by simp
          have m: "matches_targets E rootDocument input (splice1 i p)"
            using unique_True_matches [OF u'] .
          have int: "interior (splice1 i p) p" using interior_splice1 step.prems(2) g by simp
          obtain r1 s3 where o1: "optimize_from E input cfg rootDocument startTime (splice1 i p) 1 s2 = (r1, s3)"
            by (cases "optimize_from E input cfg rootDocument startTime (splice1 i p) 1 s2")
          show ?thesis
          proof (cases r1)
            case (Inl e)
            then show ?thesis using eq g ne u' o1 by simp
          next
            case (Inr ys1)
            obtain r2 s4 where o2: "optimize_from E input cfg rootDocument startTime p (i + 1) s3 = (r2, s4)"
              by (cases "optimize_from E input cfg rootDocument startTime p (i + 1) s3")
            show ?thesis
            proof (cases r2)
              case (Inl e)
              then show ?thesis using eq g ne u' o1 Inr o2 by simp
            next
              case zs: (Inr zs)
              have ys: "ys = splice1 i p # ys1 @ zs" using eq g ne u' o1 Inr o2 zs by simp
              have o1': "optimize_from E input cfg rootDocument startTime (splice1 i p) 1 s2 = (Inr ys1, s3)"
                using o1 Inr by simp
              have o2': "optimize_from E input cfg rootDocument startTime p (i + 1) s3 = (Inr zs, s4)"
                using o2 zs by simp
              from step.prems(3) ys consider "q = splice1 i p" | "q \<in> set ys1" | "q \<in> set zs"
                by auto
              then show ?thesis
              proof cases
                case 1
                then show ?thesis using m int by simp
              next
                case 2
                from step.IH(1) [OF _ _ ne u' o1' _ 2] g
                have "matches_targets E rootDocument input q \<and> interior q (splice1 i p)" by simp
                then show ?thesis using int interior_trans by blast
              next
                case 3
                from step.IH(2) [OF _ _ ne u' o1' o2' _ 3] g show ?thesis by simp
              qed
            qed
          qed
        qed
      qed
    qed
  qed
qed










lemma optimize_yields:
  "optimize E p input cfg rootDocument startTime s = (Inr ys, s') \<Longrightarrow> q \<in> set ys \<Longrightarrow>
     matches_targets E rootDocument input q \<and> interior q p"
  using optimize_from_yields [of E input cfg rootDocument startTime p 1 s ys s' q]
  by (simp add: optimize_def)




section \<open>Properties of the permutation explorer and the fallback\<close>

lemma permuations_from_induct2 [case_names step]:
  assumes step: "\<And>p i s.
     (maximumLength < length p \<Longrightarrow> i < length p - 1 \<Longrightarrow> P (splice1 i p) 1 s) \<Longrightarrow>
     (\<And>ys s1. maximumLength < length p \<Longrightarrow> i < length p - 1 \<Longrightarrow>
        permuations_from E input maximumLength maximumScore rootDocument (splice1 i p) 1 s = (Inr ys, s1) \<Longrightarrow>
        P p (i + 1) s1) \<Longrightarrow>
     P p i s"
  shows "P p i s"
proof -
  have "E' = E \<Longrightarrow> input' = input \<Longrightarrow> ml' = maximumLength \<Longrightarrow> ms' = maximumScore \<Longrightarrow>
        root' = rootDocument \<Longrightarrow> P p i s" for E' input' ml' ms' root'
  proof (induction E' input' ml' ms' root' p i s rule: permuations_from.induct)
    case (1 E' input' ml' ms' root' p i s)
    note eqs = "1.prems"
    show ?case
    proof (rule step)
      assume "maximumLength < length p" "i < length p - 1"
      then show "P (splice1 i p) 1 s" using "1.IH"(1) eqs by simp
    next
      fix ys s1
      assume "maximumLength < length p" "i < length p - 1"
        "permuations_from E input maximumLength maximumScore rootDocument (splice1 i p) 1 s = (Inr ys, s1)"
      then show "P p (i + 1) s1"
        using "1.IH"(2) [of "Inr ys" s1 ys] eqs by simp
    qed
  qed
  then show ?thesis by simp
qed


lemma permuations_from_yields:
  "permuations_from E input maximumLength maximumScore rootDocument p i s = (Inr ys, s') \<Longrightarrow>
   q \<in> set ys \<Longrightarrow> matches_targets E rootDocument input q"
proof (induction p i s arbitrary: ys s' q
    rule: permuations_from_induct2 [of maximumLength _ E input maximumScore rootDocument])
  case (step p i s)
  note eq = step.prems(1) [unfolded permuations_from.simps [of E input maximumLength maximumScore rootDocument p i s]]
  show ?case
  proof (cases "maximumLength < length p \<and> i < length p - 1")
    case g: True
    obtain r1 s1 where o1: "permuations_from E input maximumLength maximumScore rootDocument (splice1 i p) 1 s = (r1, s1)"
      by (cases "permuations_from E input maximumLength maximumScore rootDocument (splice1 i p) 1 s")
    show ?thesis
    proof (cases r1)
      case (Inl e)
      then show ?thesis using eq g o1 by auto
    next
      case (Inr ys1)
      obtain r2 s2 where o2: "permuations_from E input maximumLength maximumScore rootDocument p (i + 1) s1 = (r2, s2)"
        by (cases "permuations_from E input maximumLength maximumScore rootDocument p (i + 1) s1")
      show ?thesis
      proof (cases r2)
        case (Inl e)
        then show ?thesis using eq g o1 Inr o2 by simp
      next
        case zs: (Inr zs)
        have ys: "ys = ys1 @ zs" using eq g o1 Inr o2 zs by simp
        have o1': "permuations_from E input maximumLength maximumScore rootDocument (splice1 i p) 1 s = (Inr ys1, s1)"
          using o1 Inr by simp
        have o2': "permuations_from E input maximumLength maximumScore rootDocument p (i + 1) s1 = (Inr zs, s2)"
          using o2 zs by simp
        from step.prems(2) ys consider "q \<in> set ys1" | "q \<in> set zs" by auto
        then show ?thesis
        proof cases
          case 1
          from step.IH(1) [OF _ _ o1' 1] g show ?thesis by simp
        next
          case 2
          from step.IH(2) [OF _ _ o1' o2' 2] g show ?thesis by simp
        qed
      qed
    qed
  next
    case ng: False
    show ?thesis
    proof (cases "less_number (penalty_path p) maximumScore")
      case False
      then show ?thesis using eq ng step.prems(2) by auto
    next
      case True
      obtain ru s1 where u: "unique E ByPermutations p input rootDocument s = (ru, s1)"
        by (cases "unique E ByPermutations p input rootDocument s")
      show ?thesis
      proof (cases ru)
        case (Inl e)
        then show ?thesis using eq ng True u by auto
      next
        case (Inr b)
        then show ?thesis using eq ng True u step.prems(2) unique_True_matches [of E ByPermutations p input rootDocument s s1]
          by (cases b) auto
      qed
    qed
  qed
qed


lemma map_permuations_yields:
  "map_permuations E input maximumLength maximumScore rootDocument ps s = (Inr ys, s') \<Longrightarrow>
   q \<in> set ys \<Longrightarrow> matches_targets E rootDocument input q"
proof (induction ps arbitrary: s ys s')
  case Nil
  then show ?case by simp
next
  case (Cons p ps)
  obtain r1 s1 where o1: "permuations E p input maximumLength maximumScore rootDocument s = (r1, s1)"
    by (cases "permuations E p input maximumLength maximumScore rootDocument s")
  show ?case
  proof (cases r1)
    case (Inl e)
    then show ?thesis using Cons.prems(1) o1 by simp
  next
    case (Inr ys1)
    obtain r2 s2 where o2: "map_permuations E input maximumLength maximumScore rootDocument ps s1 = (r2, s2)"
      by (cases "map_permuations E input maximumLength maximumScore rootDocument ps s1")
    show ?thesis
    proof (cases r2)
      case (Inl e)
      then show ?thesis using Cons.prems(1) o1 Inr o2 by simp
    next
      case zs: (Inr zs)
      have "ys = ys1 @ zs" using Cons.prems(1) o1 Inr o2 zs by simp
      then consider "q \<in> set ys1" | "q \<in> set zs" using Cons.prems(2) by auto
      then show ?thesis
      proof cases
        case 1
        then show ?thesis
          using permuations_from_yields [of E input maximumLength maximumScore rootDocument p 1 s ys1 s1 q]
            o1 Inr by (simp add: permuations_def)
      next
        case 2
        then show ?thesis using Cons.IH [of s1 zs s2] o2 zs by simp
      qed
    qed
  qed
qed


lemma map_optimize_yields:
  "map_optimize E input cfg rootDocument startTime ps s = (Inr ys, s') \<Longrightarrow>
   \<forall>p\<in>set ps. matches_targets E rootDocument input p \<Longrightarrow>
   q \<in> set ys \<Longrightarrow> matches_targets E rootDocument input q"
proof (induction ps arbitrary: s ys s')
  case Nil
  then show ?case by simp
next
  case (Cons p ps)
  obtain r1 s1 where o1: "optimize E p input cfg rootDocument startTime s = (r1, s1)"
    by (cases "optimize E p input cfg rootDocument startTime s")
  show ?case
  proof (cases r1)
    case (Inl e)
    then show ?thesis using Cons.prems(1) o1 by simp
  next
    case (Inr ys1)
    obtain r2 s2 where o2: "map_optimize E input cfg rootDocument startTime ps s1 = (r2, s2)"
      by (cases "map_optimize E input cfg rootDocument startTime ps s1")
    show ?thesis
    proof (cases r2)
      case (Inl e)
      then show ?thesis using Cons.prems(1) o1 Inr o2 by simp
    next
      case zs: (Inr zs)
      have "ys = (p # ys1) @ zs" using Cons.prems(1) o1 Inr o2 zs by simp
      then consider "q = p" | "q \<in> set ys1" | "q \<in> set zs" using Cons.prems(3) by auto
      then show ?thesis
      proof cases
        case 1
        then show ?thesis using Cons.prems(2) by simp
      next
        case 2
        then show ?thesis
          using optimize_from_yields [of E input cfg rootDocument startTime p 1 s ys1 s1 q] o1 Inr
          by (simp add: optimize_def)
      next
        case 3
        then show ?thesis using Cons.IH [of s1 zs s2] o2 zs Cons.prems(2) by simp
      qed
    qed
  qed
qed


lemma fallback_matches:
  "fallback E input rootDocument s = (Inr (Some p), s') \<Longrightarrow> matches_targets E rootDocument input p"
  by (auto simp: fallback_def split: option.splits prod.splits sum.splits bool.splits
      dest: unique_True_matches)

section \<open>Properties of the finder\<close>


lemma finder_loop_found:
  "finder_loop E cfg input rootDocument startTime cands found count s = (Inr res, s') \<Longrightarrow>
   \<forall>q\<in>set found. matches_targets E rootDocument input q \<Longrightarrow>
     (case res of
        Return css \<Rightarrow> \<exists>p. matches_targets E rootDocument input p \<and> selector p = Inr css
      | Paths fp \<Rightarrow> \<forall>q\<in>set fp. matches_targets E rootDocument input q)"
proof (induction cands arbitrary: found count s)
  case Nil
  then show ?case by auto
next
  case (Cons candidate rest)
  note eq = Cons.prems(1) [unfolded finder_loop.simps now_eq prod.case]
  let ?s1 = "snd (now E s)"
  have s1: "\<lparr>reads = reads s + 1, trace = Now (clock E (reads s)) # trace s\<rparr> = ?s1"
    by (simp add: now_eq)
  note eq' = eq [unfolded s1]
  show ?case
  proof (cases "exceeds (clock E (reads s) - startTime) (timeoutMs cfg) \<or> reached count (maxNumberOfPathChecks cfg)")
    case True
    show ?thesis
    proof (cases "length found \<noteq> 0")
      case True
      with \<open>exceeds _ _ \<or> _\<close> eq' have "res = Paths found" by auto
      then show ?thesis using Cons.prems(2) by simp
    next
      case False
      obtain rf s2 where f: "fallback E input rootDocument ?s1 = (rf, s2)"
        by (cases "fallback E input rootDocument ?s1")
      from eq' True False f obtain fPath css where
        "rf = Inr (Some fPath)" "selector fPath = Inr css" "res = Return css"
        by (auto split: sum.splits option.splits)
      then show ?thesis using fallback_matches [of E input rootDocument ?s1 fPath s2] f by auto
    qed
  next
    case ok: False
    obtain ru s2 where u: "unique E BySearch candidate input rootDocument ?s1 = (ru, s2)"
      by (cases "unique E BySearch candidate input rootDocument ?s1")
    show ?thesis
    proof (cases ru)
      case (Inl e)
      then show ?thesis using eq' ok u by auto
    next
      case (Inr b)
      show ?thesis
      proof (cases b)
        case True
        have m: "matches_targets E rootDocument input candidate"
          using unique_True_matches [of E BySearch candidate input rootDocument ?s1 s2] u Inr True
          by simp
        have all: "\<forall>q\<in>set (found @ [candidate]). matches_targets E rootDocument input q"
          using m Cons.prems(2) by auto
        show ?thesis
        proof (cases "length input = 1")
          case True
          then have "res = Paths (found @ [candidate])" using eq' ok u Inr \<open>b\<close> by auto
          then show ?thesis using all by simp
        next
          case False
          then have "finder_loop E cfg input rootDocument startTime rest (found @ [candidate]) (count + 1) s2 = (Inr res, s')"
            using eq' ok u Inr True by auto
          from Cons.IH [OF this all] show ?thesis .
        qed
      next
        case False
        then have "finder_loop E cfg input rootDocument startTime rest found (count + 1) s2 = (Inr res, s')"
          using eq' ok u Inr by auto
        from Cons.IH [OF this Cons.prems(2)] show ?thesis .
      qed
    qed
  qed
qed

lemma finder_result_matches:
  "finder_result optimized foundPaths = Inr css \<Longrightarrow>
   \<forall>q\<in>set optimized. matches_targets E rootDocument input q \<Longrightarrow>
   \<forall>q\<in>set foundPaths. matches_targets E rootDocument input q \<Longrightarrow>
   \<exists>p. matches_targets E rootDocument input p \<and> selector p = Inr css"
  by (cases optimized; cases foundPaths) (auto simp: finder_result_def)

lemma finder_select_cases:
  assumes sel: "finder_select E cfg input rootDocument startTime found s = (r, s')"
  obtains
    (none) "found = []" "r = Inl NotFound" "s' = s"
  | (opt_error) firstPath otherPaths e where
      "array_sort byPenalty found = firstPath # otherPaths"
      "optimize E firstPath input cfg rootDocument startTime s = (Inl e, s')" "r = Inl e"
  | (single) firstPath otherPaths ys where
      "array_sort byPenalty found = firstPath # otherPaths"
      "optimize E firstPath input cfg rootDocument startTime s = (Inr ys, s')"
      "\<not> 1 < length input"
      "r = finder_result (array_sort byPenalty (firstPath # ys)) (array_sort byPenalty found)"
  | (perm_error) firstPath otherPaths ys s1 first others e where
      "array_sort byPenalty found = firstPath # otherPaths"
      "optimize E firstPath input cfg rootDocument startTime s = (Inr ys, s1)"
      "array_sort byPenalty (firstPath # ys) = first # others"
      "map_permuations E input (length first) (penalty_path first) rootDocument otherPaths s1 = (Inl e, s')"
      "r = Inl e"
  | (mopt_error) firstPath otherPaths ys s1 first others perms s2 e where
      "array_sort byPenalty found = firstPath # otherPaths"
      "optimize E firstPath input cfg rootDocument startTime s = (Inr ys, s1)"
      "array_sort byPenalty (firstPath # ys) = first # others"
      "map_permuations E input (length first) (penalty_path first) rootDocument otherPaths s1 = (Inr perms, s2)"
      "map_optimize E input cfg rootDocument startTime perms s2 = (Inl e, s')"
      "r = Inl e"
  | (multi) firstPath otherPaths ys s1 first others perms s2 optimized where
      "array_sort byPenalty found = firstPath # otherPaths"
      "optimize E firstPath input cfg rootDocument startTime s = (Inr ys, s1)"
      "array_sort byPenalty (firstPath # ys) = first # others"
      "map_permuations E input (length first) (penalty_path first) rootDocument otherPaths s1 = (Inr perms, s2)"
      "map_optimize E input cfg rootDocument startTime perms s2 = (Inr optimized, s')"
      "r = finder_result (array_sort byPenalty (optimized @ [first])) (array_sort byPenalty found)"
proof (cases "found = []")
  case True
  then show ?thesis using sel none by (simp add: finder_select_def)
next
  case ne: False
  have "set (array_sort byPenalty found) \<noteq> {}" using ne by (simp add: set_array_sort)
  then obtain firstPath otherPaths where fp: "array_sort byPenalty found = firstPath # otherPaths"
    by (cases "array_sort byPenalty found") auto
  obtain r1 s1 where o: "optimize E firstPath input cfg rootDocument startTime s = (r1, s1)"
    by (cases "optimize E firstPath input cfg rootDocument startTime s")
  show ?thesis
  proof (cases r1)
    case (Inl e)
    then show ?thesis using sel ne fp o opt_error by (simp add: finder_select_def)
  next
    case (Inr ys)
    show ?thesis
    proof (cases "1 < length input")
      case False
      then show ?thesis using sel ne fp o Inr single [of firstPath otherPaths ys]
        by (simp add: finder_select_def Let_def)
    next
      case True
      have "set (array_sort byPenalty (firstPath # ys)) \<noteq> {}" by (simp add: set_array_sort)
      then obtain first others where io: "array_sort byPenalty (firstPath # ys) = first # others"
        by (cases "array_sort byPenalty (firstPath # ys)") auto
      obtain r2 s2 where mp:
        "map_permuations E input (length first) (penalty_path first) rootDocument otherPaths s1 = (r2, s2)"
        by (cases "map_permuations E input (length first) (penalty_path first) rootDocument otherPaths s1")
      show ?thesis
      proof (cases r2)
        case (Inl e)
        then show ?thesis
          using sel ne fp o Inr True io mp perm_error [of firstPath otherPaths ys s1 first others e]
          by (simp add: finder_select_def Let_def)
      next
        case perms: (Inr perms)
        obtain r3 s3 where mo: "map_optimize E input cfg rootDocument startTime perms s2 = (r3, s3)"
          by (cases "map_optimize E input cfg rootDocument startTime perms s2")
        show ?thesis
        proof (cases r3)
          case (Inl e)
          then show ?thesis
            using sel ne fp o Inr True io mp perms mo
              mopt_error [of firstPath otherPaths ys s1 first others perms s2 e]
            by (simp add: finder_select_def Let_def)
        next
          case opt: (Inr optimized)
          then show ?thesis
            using sel ne fp o Inr True io mp perms mo
              multi [of firstPath otherPaths ys s1 first others perms s2 optimized]
            by (simp add: finder_select_def Let_def)
        qed
      qed
    qed
  qed
qed


lemma finder_select_matches:
  assumes sel: "finder_select E cfg input rootDocument startTime found s = (Inr css, s')"
    and found: "\<forall>q\<in>set found. matches_targets E rootDocument input q"
  shows "\<exists>p. matches_targets E rootDocument input p \<and> selector p = Inr css"
  using sel
proof (cases rule: finder_select_cases)
  case none
  then show ?thesis by simp
next
  case (opt_error firstPath otherPaths e)
  then show ?thesis by simp
next
  case (single firstPath otherPaths ys)
  have fp: "matches_targets E rootDocument input firstPath"
    using found set_array_sort [of byPenalty found] single(1) by auto
  have "\<forall>q\<in>set (array_sort byPenalty (firstPath # ys)). matches_targets E rootDocument input q"
    using fp optimize_yields [OF single(2)] by (auto simp: set_array_sort)
  moreover have "\<forall>q\<in>set (array_sort byPenalty found). matches_targets E rootDocument input q"
    using found by (simp add: set_array_sort)
  ultimately show ?thesis using single(4) finder_result_matches by metis
next
  case (perm_error firstPath otherPaths ys s1 first others e)
  then show ?thesis by simp
next
  case (mopt_error firstPath otherPaths ys s1 first others perms s2 e)
  then show ?thesis by simp
next
  case (multi firstPath otherPaths ys s1 first others perms s2 optimized)
  have fp: "matches_targets E rootDocument input firstPath"
    using found set_array_sort [of byPenalty found] multi(1) by auto
  have io: "\<forall>q\<in>set (first # others). matches_targets E rootDocument input q"
    using fp optimize_yields [OF multi(2)] set_array_sort [of byPenalty "firstPath # ys"] multi(3)
    by auto
  have perms: "\<forall>q\<in>set perms. matches_targets E rootDocument input q"
    using map_permuations_yields [OF multi(4)] by blast
  have opt: "\<forall>q\<in>set optimized. matches_targets E rootDocument input q"
    using map_optimize_yields [OF multi(5) perms] by blast
  have "\<forall>q\<in>set (array_sort byPenalty (optimized @ [first])). matches_targets E rootDocument input q"
    using opt io by (auto simp: set_array_sort)
  moreover have "\<forall>q\<in>set (array_sort byPenalty found). matches_targets E rootDocument input q"
    using found by (simp add: set_array_sort)
  ultimately show ?thesis using multi(6) finder_result_matches by metis
qed

lemma finder_run:
  assumes run: "finder E initialInput opts s = (r, s')"
  obtains
    (invalid) "r = Inl InvalidInput" "s' = s"
  | (html) "list_all (\<lambda>element. lower_tag E element = ''html'') (as_array initialInput)"
      "r = Inr ''html''" "s' = s"
  | (no_root) e where "r = Inl e" "s' = snd (now E s)"
  | (loop_error) rootDocument e where
      "findRootDocument E (root (merge (defaults E) opts)) (defaults E) = Inr rootDocument"
      "finder_loop E (merge (defaults E) opts) (as_array initialInput) rootDocument (clock E (reads s))
         (search E (as_array initialInput) (merge (defaults E) opts) rootDocument) [] 0 (snd (now E s))
       = (Inl e, s')"
      "r = Inl e"
  | (fallback) rootDocument css where
      "findRootDocument E (root (merge (defaults E) opts)) (defaults E) = Inr rootDocument"
      "finder_loop E (merge (defaults E) opts) (as_array initialInput) rootDocument (clock E (reads s))
         (search E (as_array initialInput) (merge (defaults E) opts) rootDocument) [] 0 (snd (now E s))
       = (Inr (Return css), s')"
      "r = Inr css"
  | (select) rootDocument foundPaths s1 where
      "findRootDocument E (root (merge (defaults E) opts)) (defaults E) = Inr rootDocument"
      "finder_loop E (merge (defaults E) opts) (as_array initialInput) rootDocument (clock E (reads s))
         (search E (as_array initialInput) (merge (defaults E) opts) rootDocument) [] 0 (snd (now E s))
       = (Inr (Paths foundPaths), s1)"
      "finder_select E (merge (defaults E) opts) (as_array initialInput) rootDocument
         (clock E (reads s)) foundPaths s1 = (r, s')"
proof -
  let ?input = "as_array initialInput"
  let ?cfg = "merge (defaults E) opts"
  show ?thesis
  proof (cases "list_ex (\<lambda>element. nodeType (the_node E element) \<noteq> ELEMENT_NODE) ?input")
    case True
    then show ?thesis using run invalid by (simp add: finder_def)
  next
    case el: False
    show ?thesis
    proof (cases "list_all (\<lambda>element. lower_tag E element = ''html'') ?input")
      case True
      then show ?thesis using run el html by (simp add: finder_def)
    next
      case nh: False
      show ?thesis
      proof (cases "findRootDocument E (root ?cfg) (defaults E)")
        case (Inl e)
        then show ?thesis using run el nh no_root [of e] by (simp add: finder_def now_eq Let_def)
      next
        case (Inr rootDocument)
        obtain rl s1 where l: "finder_loop E ?cfg ?input rootDocument (clock E (reads s))
            (search E ?input ?cfg rootDocument) [] 0 (snd (now E s)) = (rl, s1)"
          by (cases "finder_loop E ?cfg ?input rootDocument (clock E (reads s))
            (search E ?input ?cfg rootDocument) [] 0 (snd (now E s))")
        have run': "(case rl of Inl e \<Rightarrow> (Inl e, s1)
            | Inr (Return css) \<Rightarrow> (Inr css, s1)
            | Inr (Paths foundPaths) \<Rightarrow>
                finder_select E ?cfg ?input rootDocument (clock E (reads s)) foundPaths s1) = (r, s')"
          using run el nh Inr l by (simp add: finder_def now_eq Let_def split: sum.splits)
        show ?thesis
        proof (cases rl)
          case (Inl e)
          then show ?thesis using run' Inr l loop_error [of rootDocument e] by simp
        next
          case res: (Inr res)
          show ?thesis
          proof (cases res)
            case (Return css)
            then show ?thesis using run' Inr l res fallback [of rootDocument css] by simp
          next
            case (Paths foundPaths)
            then show ?thesis using run' Inr l res select [of rootDocument foundPaths s1] by simp
          qed
        qed
      qed
    qed
  qed
qed

text \<open>The run of the finder on the two items of the second document: eighteen checks
  of the search loop, the optimizer stopped by the clock, two checks of the permutation
  explorer.\<close>

lemma two_finder_run:
  "finder two_env (Multiple [two_li 0 0, two_li 1 0]) two_options s0 =
     (Inr ''#page > #top > div:nth-child(1) .item'', \<lparr> reads = 22, trace = two_trace \<rparr>)"
  by (simp add: two_defs two_trace_def dom_defs tie_defs run_defs word_defs idName_def className_def
      attr_def Let_def)

text \<open>
  C1 (as amended).  Let the finder return a selector for targets that do not all have the
  tag \<open>html\<close>.  Queried in the root scope, the selector finds at least one node, as many
  nodes as there are targets, and every target.  For a single target \<open>n\<close> the nodes found
  are exactly \<open>[n]\<close>; for targets without repetition (the query repeats no node) the set
  of the nodes found is the set of the targets.  (When every target has the tag
  \<open>html\<close>, the text \<open>html\<close> is returned without a query.)
\<close>

theorem finder_matches_targets:
  assumes run: "finder E initialInput opts s = (Inr css, s')"
    and nh: "\<not> list_all (\<lambda>element. lower_tag E element = ''html'') (as_array initialInput)"
    and rd: "findRootDocument E (root (merge (defaults E) opts)) (defaults E) = Inr rootDocument"
  shows "querySelectorAll E rootDocument css \<noteq> [] \<and>
     length (querySelectorAll E rootDocument css) = length (as_array initialInput) \<and>
     set (as_array initialInput) \<subseteq> set (querySelectorAll E rootDocument css) \<and>
     (\<forall>n. initialInput = Single n \<longrightarrow> querySelectorAll E rootDocument css = [n]) \<and>
     (distinct (as_array initialInput) \<and> distinct (querySelectorAll E rootDocument css) \<longrightarrow>
        set (querySelectorAll E rootDocument css) = set (as_array initialInput))"
proof -
  let ?input = "as_array initialInput"
  let ?found = "querySelectorAll E rootDocument css"
  have "\<exists>p. matches_targets E rootDocument ?input p \<and> selector p = Inr css"
    using run
  proof (cases rule: finder_run)
    case invalid
    then show ?thesis by simp
  next
    case html
    then show ?thesis using nh by simp
  next
    case (no_root e)
    then show ?thesis by simp
  next
    case (loop_error rootDocument' e)
    then show ?thesis by simp
  next
    case (fallback rootDocument' css')
    then have "rootDocument' = rootDocument" "css' = css" using rd by simp_all
    then show ?thesis using finder_loop_found [OF fallback(2)] by simp
  next
    case (select rootDocument' foundPaths s1)
    then have r: "rootDocument' = rootDocument" using rd by simp
    have "\<forall>q\<in>set foundPaths. matches_targets E rootDocument ?input q"
      using finder_loop_found [OF select(2)] r by simp
    then show ?thesis using finder_select_matches [OF select(3) [unfolded r]] by simp
  qed
  then have m: "?found \<noteq> []" "length ?found = length ?input" "set ?input \<subseteq> set ?found"
    by (auto simp: matches_targets_def)
  have single: "?found = [n]" if "initialInput = Single n" for n
  proof -
    have "length ?found = 1" "n \<in> set ?found" using m that by (simp_all add: as_array_def)
    then show ?thesis by (cases ?found) auto
  qed
  have seteq: "set ?found = set ?input" if d: "distinct ?input" "distinct ?found"
  proof -
    have "card (set ?input) = card (set ?found)" using d m by (simp add: distinct_card)
    then show ?thesis using m card_subset_eq [of "set ?found" "set ?input"] by auto
  qed
  show ?thesis using m single seteq by blast
qed

text \<open>The paragraph of the example, with the section as the root: the first candidate
  \<open>p\<close> is unique.\<close>

lemma ex_finder_run:
  "finder ex_env (Single ex_p) ex_options s0 =
     (Inr ''p'', \<lparr> reads = 2, trace = [Query BySearch ''p'', Now 10, Now 0] \<rparr>)"
  by (simp add: ex_options_def ex_defs dom_defs tie_defs run_defs Let_def)

lemma ex_root: "findRootDocument ex_env (root (merge (defaults ex_env) ex_options)) (defaults ex_env) = Inr ex_section"
  by (simp add: ex_options_def ex_defs dom_defs run_defs)

theorem finder_matches_targets_witness:
  "finder ex_env (Single ex_p) ex_options s0 =
     (Inr ''p'', \<lparr> reads = 2, trace = [Query BySearch ''p'', Now 10, Now 0] \<rparr>) \<and>
   querySelectorAll ex_env ex_section ''p'' = [ex_p] \<and>
   fst (finder two_env (Multiple [two_li 0 0, two_li 1 0]) two_options s0) =
     Inr ''#page > #top > div:nth-child(1) .item'' \<and>
   set (querySelectorAll two_env two_main ''#page > #top > div:nth-child(1) .item'') =
     {two_li 0 0, two_li 1 0}"
proof -
  have nh: "\<not> list_all (\<lambda>element. lower_tag ex_env element = ''html'') (as_array (Single ex_p))"
    by (simp add: as_array_def ex_defs dom_defs)
  have nh2: "\<not> list_all (\<lambda>element. lower_tag two_env element = ''html'')
      (as_array (Multiple [two_li 0 0, two_li 1 0]))"
    by (simp add: as_array_def two_defs dom_defs)
  have rd2: "findRootDocument two_env (root (merge (defaults two_env) two_options)) (defaults two_env)
      = Inr two_main"
    by (simp add: two_defs dom_defs run_defs)
  have d: "distinct (as_array (Multiple [two_li 0 0, two_li 1 0]))"
    "distinct (querySelectorAll two_env two_main ''#page > #top > div:nth-child(1) .item'')"
    by (simp_all add: as_array_def two_defs)
  have 1: "querySelectorAll ex_env ex_section ''p'' = [ex_p]"
    using finder_matches_targets [OF ex_finder_run nh ex_root] by simp
  have 2: "set (querySelectorAll two_env two_main ''#page > #top > div:nth-child(1) .item'') =
      {two_li 0 0, two_li 1 0}"
    using finder_matches_targets [OF two_finder_run nh2 rd2] d by (simp add: as_array_def)
  show ?thesis using ex_finder_run two_finder_run 1 2 by simp
qed

text \<open>As stated, C1 holds of every element target.  For the second \<open>html\<close> element of
  the example the finder returns \<open>html\<close> without a query, and in the document that
  selector finds two nodes.\<close>

theorem finder_html_counterexample:
  "finder ex_env (Single ex_html2) no_options s0 = (Inr ''html'', s0) \<and>
   findRootDocument ex_env (root (merge (defaults ex_env) no_options)) (defaults ex_env) = Inr [] \<and>
   querySelectorAll ex_env [] ''html'' = [[0], ex_html2] \<and>
   querySelectorAll ex_env [] ''html'' \<noteq> [ex_html2]"
  by (simp add: ex_defs dom_defs run_defs)





end
